theory Spec2Isabelle
  imports Complex_Main "HOL-Library.Word" "HOL-Library.Multiset" "HOL-Library.Log_Nat"
begin

section \<open>Data model\<close>

text \<open>
  A JavaScript string is a sequence of 16-bit code units.
\<close>

type_synonym js_string = "16 word list"

text \<open>
  The \<open>Category\<close> interface of the dashboard. Optional fields are options; the creation
  timestamp is kept as the value of \<open>toMillis()\<close>. The field names carry the prefix
  \<open>cat_\<close> because \<open>id\<close> is a constant of HOL.
\<close>

record category =
  cat_id :: js_string
  cat_name :: "js_string option"
  cat_imageUrl :: "js_string option"
  cat_createdAt :: "int option"
  cat_order :: "int option"

section \<open>Drag and drop reordering (\<open>handleDrop\<close> of the dashboard)\<close>

text \<open>
  The part of the component state that \<open>handleDrop\<close> reads and writes.
\<close>

record panel =
  categories :: "category list"
  draggedIndex :: "nat option"

text \<open>
  \<open>const [moved] = newCategories.splice(draggedIndex, 1)\<close>: the array without the element
  at the index, and the removed element, which is \<open>undefined\<close> (here \<open>None\<close>) when the
  index is not below the length.
\<close>

definition splice_out :: "nat \<Rightarrow> 'a list \<Rightarrow> 'a list \<times> 'a option" where
  "splice_out i xs = (take i xs @ drop (Suc i) xs, if i < length xs then Some (xs ! i) else None)"

text \<open>
  \<open>newCategories.splice(dropIndex, 0, moved)\<close>: a start index beyond the end is clamped
  to the length, which is what \<open>take\<close> and \<open>drop\<close> do.
\<close>

definition splice_in :: "nat \<Rightarrow> 'a \<Rightarrow> 'a list \<Rightarrow> 'a list" where
  "splice_in j x xs = take j xs @ x # drop j xs"

text \<open>
  A write \<open>updateDoc(doc(db, "categories", cat.id), { order: idx })\<close> is the pair of the
  document id and the index. The database answers each write with the time at which its
  promise settles and whether it is fulfilled or rejected.
\<close>

type_synonym order_write = "js_string \<times> nat"

datatype 'e settled = Fulfilled | Rejected 'e

type_synonym 'e database = "order_write \<Rightarrow> nat \<times> 'e settled"

text \<open>
  \<open>newCategories.map((cat, idx) => updateDoc(..., { order: idx }))\<close>
\<close>

definition batchUpdates :: "category list \<Rightarrow> order_write list" where
  "batchUpdates cs = map (\<lambda>(idx, c). (cat_id c, idx)) (enumerate 0 cs)"

text \<open>
  \<open>Promise.all\<close> rejects with the reason of the promise that is rejected first in time
  (the earlier position wins between equal times) and is fulfilled when none is rejected.
\<close>

fun first_rejection :: "(nat \<times> 'e settled) list \<Rightarrow> (nat \<times> 'e) option" where
  "first_rejection [] = None"
| "first_rejection ((t, Fulfilled) # ps) = first_rejection ps"
| "first_rejection ((t, Rejected e) # ps) =
     (case first_rejection ps of
        None \<Rightarrow> Some (t, e)
      | Some (t', e') \<Rightarrow> if t' < t then Some (t', e') else Some (t, e))"

definition promise_all :: "(nat \<times> 'e settled) list \<Rightarrow> 'e settled" where
  "promise_all ps = (case first_rejection ps of None \<Rightarrow> Fulfilled | Some (t, e) \<Rightarrow> Rejected e)"

text \<open>
  The stored \<open>order\<close> fields after a batch: every fulfilled write sets the field of its
  document.
\<close>

fun persist :: "(js_string \<rightharpoonup> nat) \<Rightarrow> (order_write \<times> 'e settled) list \<Rightarrow> (js_string \<rightharpoonup> nat)" where
  "persist store [] = store"
| "persist store (((k, idx), Fulfilled) # ws) = persist (store(k \<mapsto> idx)) ws"
| "persist store (((k, idx), Rejected e) # ws) = persist store ws"

text \<open>
  What one call of \<open>handleDrop\<close> does: the new component state, the writes it issued in
  the order of issue, the stored order fields afterwards and the lines written with
  \<open>console.error\<close> (the message and the error object).
\<close>

record 'e drop_effect =
  state :: panel
  writes :: "order_write list"
  stored :: "js_string \<rightharpoonup> nat"
  console :: "(string \<times> 'e) list"

datatype js_error = TypeError

text \<open>
  \<open>handleDrop\<close>. When the dragged index is not an index of the list, \<open>moved\<close> is
  \<open>undefined\<close> and \<open>cat.id\<close> in the \<open>map\<close> callback throws a \<open>TypeError\<close>, which the
  \<open>try\<close> block does not cover. The list set just before then holds an \<open>undefined\<close>
  entry, for which the type \<open>Category\<close> has no value: that branch is the error alone.
\<close>

definition handleDrop ::
  "'e database \<Rightarrow> (js_string \<rightharpoonup> nat) \<Rightarrow> panel \<Rightarrow> nat \<Rightarrow> js_error + 'e drop_effect" where
  "handleDrop db store st dropIndex =
     (case draggedIndex st of
        None \<Rightarrow> Inr \<lparr>state = st, writes = [], stored = store, console = []\<rparr>
      | Some i \<Rightarrow>
          if i = dropIndex then Inr \<lparr>state = st, writes = [], stored = store, console = []\<rparr>
          else
            (case splice_out i (categories st) of
               (rest, None) \<Rightarrow> Inl TypeError
             | (rest, Some moved) \<Rightarrow>
                 let newCategories = splice_in dropIndex moved rest;
                     st' = st\<lparr>categories := newCategories, draggedIndex := None\<rparr>;
                     ws = batchUpdates newCategories;
                     answers = map db ws
                 in Inr \<lparr>state = st',
                         writes = ws,
                         stored = persist store (zip ws (map snd answers)),
                         console =
                           (case promise_all answers of
                              Fulfilled \<Rightarrow> []
                            | Rejected e \<Rightarrow> [(''Failed to update category order:'', e)])\<rparr>))"

text \<open>
  The list that a drop from \<open>i\<close> to \<open>j\<close> leaves in the state.
\<close>

definition reorder :: "nat \<Rightarrow> nat \<Rightarrow> 'a list \<Rightarrow> 'a list" where
  "reorder i j xs = splice_in j (xs ! i) (fst (splice_out i xs))"

section \<open>Example data\<close>

text \<open>
  Three categories with the ids \<open>a\<close>, \<open>b\<close>, \<open>c\<close>, the first one being dragged, a
  database that accepts every write and one that rejects the writes to \<open>b\<close>.
\<close>

definition example_categories :: "category list" where
  "example_categories =
     [\<lparr>cat_id = [0x61], cat_name = None, cat_imageUrl = None, cat_createdAt = Some 30, cat_order = Some 0\<rparr>,
      \<lparr>cat_id = [0x62], cat_name = None, cat_imageUrl = None, cat_createdAt = Some 20, cat_order = Some 1\<rparr>,
      \<lparr>cat_id = [0x63], cat_name = None, cat_imageUrl = None, cat_createdAt = Some 10, cat_order = None\<rparr>]"

definition example_panel :: panel where
  "example_panel = \<lparr>categories = example_categories, draggedIndex = Some 0\<rparr>"

definition db_ok :: "string database" where
  "db_ok w = (snd w, Fulfilled)"

definition db_failing :: "string database" where
  "db_failing w = (if fst w = [0x62] then (5, Rejected ''unavailable'') else (snd w, Fulfilled))"

section \<open>Name normalisation (\<open>formatName\<close>)\<close>

text \<open>
  The code units that \<open>String.prototype.trim\<close> strips and that \<open>\s\<close> matches in a
  regular expression: the white space and line terminator characters of ECMAScript
  (TAB, LF, VT, FF, CR, SP, NBSP, U+1680, U+2000 to U+200A, LS, PS, U+202F, U+205F,
  U+3000 and the byte order mark).
\<close>

definition is_ws :: "16 word \<Rightarrow> bool" where
  "is_ws c \<longleftrightarrow>
     c \<in> {0x09, 0x0A, 0x0B, 0x0C, 0x0D, 0x20, 0xA0, 0x1680, 0x2028, 0x2029, 0x202F, 0x205F,
          0x3000, 0xFEFF}
     \<or> (0x2000 \<le> c \<and> c \<le> 0x200A)"

text \<open>\<open>raw.trim()\<close>\<close>

definition trim :: "js_string \<Rightarrow> js_string" where
  "trim s = rev (dropWhile is_ws (rev (dropWhile is_ws s)))"

text \<open>
  \<open>.replace(/\s+/g, " ")\<close>: every maximal run of white space becomes one space.
\<close>

function collapse :: "js_string \<Rightarrow> js_string" where
  "collapse [] = []"
| "collapse (c # cs) =
     (if is_ws c then 0x20 # collapse (dropWhile is_ws cs) else c # collapse cs)"
  by pat_completeness auto
termination
  by (relation "measure length") (auto simp: length_dropWhile_le less_Suc_eq_le)

text \<open>
  \<open>.split(" ")\<close>: the pieces between the spaces; the empty string gives one empty piece.
  The result is never the empty list, so the second branch of the \<open>case\<close> is not taken.
\<close>

fun split_sp :: "js_string \<Rightarrow> js_string list" where
  "split_sp [] = [[]]"
| "split_sp (c # cs) =
     (if c = 0x20 then [] # split_sp cs
      else (case split_sp cs of w # ws \<Rightarrow> (c # w) # ws | [] \<Rightarrow> [[c]]))"

text \<open>
  \<open>String.prototype.toUpperCase\<close> and \<open>toLowerCase\<close> belong to the engine, not to
  this program: they apply the case mappings of the Unicode Character Database to the
  whole string (with the special casing that maps one character to several, and in
  \<open>toLowerCase\<close> the rule for the final sigma). The model takes the two functions as
  parameters.
\<close>

record case_mapping =
  toUpperCase :: "js_string \<Rightarrow> js_string"
  toLowerCase :: "js_string \<Rightarrow> js_string"

text \<open>
  The callback of \<open>map\<close>: \<open>w.charAt(0).toUpperCase() + w.slice(1).toLowerCase()\<close>.
  \<open>charAt(0)\<close> and \<open>slice(1)\<close> of the empty string are empty.
\<close>

definition capitalize :: "case_mapping \<Rightarrow> js_string \<Rightarrow> js_string" where
  "capitalize cm w = toUpperCase cm (take 1 w) @ toLowerCase cm (drop 1 w)"

text \<open>\<open>.join(" ")\<close>\<close>

fun join_sp :: "js_string list \<Rightarrow> js_string" where
  "join_sp [] = []"
| "join_sp [w] = w"
| "join_sp (w # ws) = w @ 0x20 # join_sp ws"

text \<open>
  \<open>formatName\<close>, the same function in both source files.
\<close>

definition formatName :: "case_mapping \<Rightarrow> js_string \<Rightarrow> js_string" where
  "formatName cm raw = join_sp (map (capitalize cm) (split_sp (collapse (trim raw))))"

text \<open>
  Two notions for the proofs: a string without white space, and a list of words as
  \<open>split_sp\<close> returns it for a string that is not blank (at least one word, every word
  non-empty and without white space).
\<close>

definition no_ws :: "js_string \<Rightarrow> bool" where
  "no_ws w \<longleftrightarrow> (\<forall>c\<in>set w. \<not> is_ws c)"

definition proper_words :: "js_string list \<Rightarrow> bool" where
  "proper_words ws \<longleftrightarrow> ws \<noteq> [] \<and> (\<forall>w\<in>set ws. w \<noteq> [] \<and> no_ws w)"

text \<open>
  What the statements below assume of the case mappings of the engine: the empty string
  is mapped to itself, the upper case of a code unit that is not white space is not
  empty and has no white space, and the lower case of a string without white space has
  no white space. The mappings of Unicode have these properties: no case mapping adds
  or removes a white space character.
\<close>

definition keeps_words :: "case_mapping \<Rightarrow> bool" where
  "keeps_words cm \<longleftrightarrow>
     toUpperCase cm [] = [] \<and> toLowerCase cm [] = []
     \<and> (\<forall>c. \<not> is_ws c \<longrightarrow> toUpperCase cm [c] \<noteq> [] \<and> no_ws (toUpperCase cm [c]))
     \<and> (\<forall>s. no_ws s \<longrightarrow> no_ws (toLowerCase cm s))"

text \<open>
  A case mapping for the examples. It maps code unit by code unit with the mappings of
  Unicode for Basic Latin and the Latin-1 Supplement (the micro sign to the Greek
  capital mu, the sharp s to the two letters \<open>SS\<close>, \<open>y\<close> with diaeresis to U+0178; the
  multiplication and division signs have no case) and leaves every other code unit as
  it is. It is the mapping of the engine on the strings of the examples, which stay
  within U+0000 to U+00FF, and stands for nothing else.
\<close>

definition latin1_upper :: "16 word \<Rightarrow> js_string" where
  "latin1_upper c =
     (if 0x61 \<le> c \<and> c \<le> 0x7A then [c - 0x20]
      else if c = 0xB5 then [0x039C]
      else if c = 0xDF then [0x53, 0x53]
      else if 0xE0 \<le> c \<and> c \<le> 0xFE \<and> c \<noteq> 0xF7 then [c - 0x20]
      else if c = 0xFF then [0x0178]
      else [c])"

definition latin1_lower :: "16 word \<Rightarrow> js_string" where
  "latin1_lower c =
     (if 0x41 \<le> c \<and> c \<le> 0x5A then [c + 0x20]
      else if 0xC0 \<le> c \<and> c \<le> 0xDE \<and> c \<noteq> 0xD7 then [c + 0x20]
      else [c])"

definition latin1_case :: case_mapping where
  "latin1_case = \<lparr>toUpperCase = (\<lambda>s. concat (map latin1_upper s)),
                   toLowerCase = (\<lambda>s. concat (map latin1_lower s))\<rparr>"

section \<open>Adding a category (\<open>handleSubmit\<close> of the dialog)\<close>

text \<open>
  The state of the dialog that \<open>handleSubmit\<close> reads: the name typed and the compressed
  image, \<open>null\<close> (here \<open>None\<close>) until one is chosen.
\<close>

record add_form =
  form_name :: js_string
  form_image :: "js_string option"

text \<open>
  The document handed to \<open>addDoc\<close>; its \<open>createdAt\<close> is the server timestamp.
\<close>

record new_category =
  new_name :: js_string
  new_imageUrl :: js_string

text \<open>
  \<open>handleSubmit\<close> up to the call of \<open>addDoc\<close>: the two early returns with their alerts,
  or the document to add. \<open>!name.trim()\<close> holds when the trimmed name is empty, and
  \<open>!image\<close> when the image is \<open>null\<close> or the empty string.
\<close>

datatype submit_effect = Alert string | AddDoc new_category

definition handleSubmit :: "case_mapping \<Rightarrow> add_form \<Rightarrow> submit_effect" where
  "handleSubmit cm f =
     (if trim (form_name f) = [] then Alert ''Category name is required.''
      else case form_image f of
             None \<Rightarrow> Alert ''Category image is required.''
           | Some dataUrl \<Rightarrow>
               if dataUrl = [] then Alert ''Category image is required.''
               else AddDoc \<lparr>new_name = formatName cm (form_name f), new_imageUrl = dataUrl\<rparr>)"

section \<open>The category listener (\<open>onSnapshot\<close> callback)\<close>

text \<open>
  The fields of a stored category document that the listener reads; a field that is
  missing or \<open>null\<close> is \<open>None\<close>.
\<close>

record doc_data =
  doc_id :: js_string
  data_name :: "js_string option"
  data_imageUrl :: "js_string option"
  data_createdAt :: "int option"
  data_order :: "int option"

text \<open>
  The numbers the comparison works with: the stored orders and the times are integers,
  a missing order is \<open>Infinity\<close>. Subtraction follows IEEE 754 on these values.
\<close>

datatype js_number = Finite int | PosInfinity | NegInfinity | NaN

fun js_minus :: "js_number \<Rightarrow> js_number \<Rightarrow> js_number" where
  "js_minus (Finite a) (Finite b) = Finite (a - b)"
| "js_minus NaN _ = NaN"
| "js_minus _ NaN = NaN"
| "js_minus PosInfinity PosInfinity = NaN"
| "js_minus NegInfinity NegInfinity = NaN"
| "js_minus PosInfinity _ = PosInfinity"
| "js_minus NegInfinity _ = NegInfinity"
| "js_minus (Finite a) PosInfinity = NegInfinity"
| "js_minus (Finite a) NegInfinity = PosInfinity"

text \<open>\<open>a !== b\<close> on numbers: \<open>NaN\<close> differs from everything.\<close>

definition strict_neq :: "js_number \<Rightarrow> js_number \<Rightarrow> bool" where
  "strict_neq a b \<longleftrightarrow> a = NaN \<or> b = NaN \<or> a \<noteq> b"

text \<open>The string \<open>"Unnamed"\<close>.\<close>

definition Unnamed :: js_string where
  "Unnamed = [0x55, 0x6E, 0x6E, 0x61, 0x6D, 0x65, 0x64]"

text \<open>
  The object pushed to \<open>fetched\<close> for one document. \<open>data.name ? \<dots> : "Unnamed"\<close> takes
  the first branch for a name that is present and not the empty string.
\<close>

definition toCategory :: "case_mapping \<Rightarrow> doc_data \<Rightarrow> category" where
  "toCategory cm d =
     \<lparr>cat_id = doc_id d,
      cat_name = Some (case data_name d of
                         None \<Rightarrow> Unnamed
                       | Some n \<Rightarrow> if n \<noteq> [] then formatName cm n else Unnamed),
      cat_imageUrl = data_imageUrl d,
      cat_createdAt = data_createdAt d,
      cat_order = data_order d\<rparr>"

text \<open>\<open>a.order ?? Infinity\<close> and \<open>a.createdAt?.toMillis() ?? 0\<close>\<close>

definition orderOf :: "category \<Rightarrow> js_number" where
  "orderOf a = (case cat_order a of Some n \<Rightarrow> Finite n | None \<Rightarrow> PosInfinity)"

definition timeOf :: "category \<Rightarrow> int" where
  "timeOf a = (case cat_createdAt a of Some t \<Rightarrow> t | None \<Rightarrow> 0)"

text \<open>The comparison function given to \<open>fetched.sort\<close>.\<close>

definition compareCategories :: "category \<Rightarrow> category \<Rightarrow> js_number" where
  "compareCategories a b =
     (let aOrder = orderOf a; bOrder = orderOf b in
      if strict_neq aOrder bOrder then js_minus aOrder bOrder
      else let aTime = timeOf a; bTime = timeOf b in Finite (bTime - aTime))"

text \<open>
  \<open>Array.prototype.sort\<close> is stable and puts \<open>a\<close> after \<open>b\<close> only when the comparison
  of \<open>a\<close> with \<open>b\<close> is positive (\<open>NaN\<close> counts as zero). It is modelled by the stable
  insertion sort: an element goes behind those of the sorted rest that it compares
  positive with.
\<close>

fun is_positive :: "js_number \<Rightarrow> bool" where
  "is_positive (Finite n) = (0 < n)"
| "is_positive PosInfinity = True"
| "is_positive NegInfinity = False"
| "is_positive NaN = False"

fun sort_insert :: "('a \<Rightarrow> 'a \<Rightarrow> js_number) \<Rightarrow> 'a \<Rightarrow> 'a list \<Rightarrow> 'a list" where
  "sort_insert cmp x [] = [x]"
| "sort_insert cmp x (y # ys) =
     (if is_positive (cmp x y) then y # sort_insert cmp x ys else x # y # ys)"

fun array_sort :: "('a \<Rightarrow> 'a \<Rightarrow> js_number) \<Rightarrow> 'a list \<Rightarrow> 'a list" where
  "array_sort cmp [] = []"
| "array_sort cmp (x # xs) = sort_insert cmp x (array_sort cmp xs)"

text \<open>
  The callback of the listener: the list handed to \<open>setCategories\<close> for a snapshot.
\<close>

definition onSnapshot :: "case_mapping \<Rightarrow> doc_data list \<Rightarrow> category list" where
  "onSnapshot cm docs = array_sort compareCategories (map (toCategory cm) docs)"

text \<open>
  The order the proofs use: smaller order first, a missing order last, the later
  creation time first among equal orders.
\<close>

definition listed_before :: "category \<Rightarrow> category \<Rightarrow> bool" where
  "listed_before a b \<longleftrightarrow>
     (case (cat_order a, cat_order b) of
        (Some m, Some n) \<Rightarrow> m < n \<or> (m = n \<and> timeOf b \<le> timeOf a)
      | (Some m, None) \<Rightarrow> True
      | (None, Some n) \<Rightarrow> False
      | (None, None) \<Rightarrow> timeOf b \<le> timeOf a)"

section \<open>JavaScript numbers\<close>

text \<open>
  A JavaScript number is an IEEE 754 binary64 value. The finite ones are rationals, and
  an arithmetic operation returns the binary64 value nearest to the exact result, the
  one with the even significand when two are equally near. \<open>exponent_of x\<close> is the
  integer \<open>e\<close> with \<open>2 powi e \<le> \<bar>x\<bar> < 2 powi (e + 1)\<close>, \<open>quantum x\<close> the distance between neighbouring
  binary64 values at \<open>x\<close> (53 significant bits, the subnormal spacing below
  \<open>2 powi - 1022\<close>) and \<open>double_of x\<close> the rounded value. Overflow to \<open>Infinity\<close> is not
  modelled: the numbers of this program stay below \<open>2 powi 53\<close>.
\<close>

definition exponent_of :: "rat \<Rightarrow> int" where
  "exponent_of x =
     (let (p, q) = quotient_of \<bar>x\<bar>; k = bitlen p - bitlen q
      in if 2 powi k \<le> \<bar>x\<bar> then k else k - 1)"

definition quantum :: "rat \<Rightarrow> rat" where
  "quantum x = 2 powi (max (exponent_of x) (- 1022) - 52)"

definition round_half_even :: "rat \<Rightarrow> int" where
  "round_half_even m =
     (let f = \<lfloor>m\<rfloor>; d = m - of_int f
      in if d < 1 / 2 then f else if 1 / 2 < d then f + 1 else if even f then f else f + 1)"

definition double_of :: "rat \<Rightarrow> rat" where
  "double_of x = (if x = 0 then 0 else of_int (round_half_even (x / quantum x)) * quantum x)"

text \<open>\<open>Math.round\<close>: the nearest integer, the larger one of two equally near.\<close>

definition math_round :: "rat \<Rightarrow> int" where
  "math_round x = \<lfloor>x + 1 / 2\<rfloor>"

section \<open>Image compression (\<open>compressImage\<close>)\<close>

definition MAX_DIM :: rat where
  "MAX_DIM = 1200"

definition TARGET_KB :: rat where
  "TARGET_KB = 500 * 1024"

text \<open>
  What \<open>img.onload\<close> reads of the decoded image: \<open>width\<close> and \<open>height\<close>, which the DOM
  declares as \<open>unsigned long\<close>.
\<close>

record loaded_image =
  img_width :: "32 word"
  img_height :: "32 word"

text \<open>
  The \<open>width\<close> and \<open>height\<close> given to the canvas (lines 31 to 44 of the dialog): the
  product and the quotient are rounded to binary64, the quotient then by \<open>Math.round\<close>.
\<close>

definition canvasSize :: "loaded_image \<Rightarrow> rat \<times> rat" where
  "canvasSize img =
     (let width = of_nat (unat (img_width img));
          height = of_nat (unat (img_height img))
      in if width > height \<and> width > MAX_DIM
         then (MAX_DIM, of_int (math_round (double_of (double_of (height * MAX_DIM) / width))))
         else if height > MAX_DIM
         then (of_int (math_round (double_of (double_of (width * MAX_DIM) / height))), MAX_DIM)
         else (width, height))"

text \<open>\<open>Math.round((dataUrl.length * 3) / 4)\<close>\<close>

definition byteLength :: "js_string \<Rightarrow> rat" where
  "byteLength dataUrl =
     of_int (math_round (double_of (double_of (of_nat (length dataUrl) * 3) / 4)))"

text \<open>
  The test \<open>byteLength < TARGET_KB || quality <= 0.1\<close>, the literal \<open>0.1\<close> being the
  binary64 value nearest to one tenth.
\<close>

definition resolves :: "js_string \<Rightarrow> rat \<Rightarrow> bool" where
  "resolves dataUrl quality \<longleftrightarrow> byteLength dataUrl < TARGET_KB \<or> quality \<le> double_of (1 / 10)"

text \<open>\<open>quality = Math.max(quality - 0.1, 0.1)\<close>\<close>

definition next_quality :: "rat \<Rightarrow> rat" where
  "next_quality quality = max (double_of (quality - double_of (1 / 10))) (double_of (1 / 10))"

text \<open>
  \<open>tryCompress\<close> calls itself again through \<open>setTimeout\<close>. The first argument bounds the
  number of calls: the result is \<open>None\<close> when the promise is not resolved within that
  many calls, and otherwise the data URL it is resolved with, together with the value
  of \<open>quality\<close> at that moment. \<open>toDataURL\<close> is the encoder of the browser for the canvas,
  as a function of the quality.
\<close>

fun tryCompress :: "nat \<Rightarrow> (rat \<Rightarrow> js_string) \<Rightarrow> rat \<Rightarrow> (js_string \<times> rat) option" where
  "tryCompress 0 toDataURL quality = None"
| "tryCompress (Suc fuel) toDataURL quality =
     (let dataUrl = toDataURL quality
      in if resolves dataUrl quality then Some (dataUrl, quality)
         else tryCompress fuel toDataURL (next_quality quality))"

text \<open>
  \<open>compressImage\<close>: the promise is rejected when the reader or the image reports an
  error (the image is \<open>None\<close>), and otherwise the search starts at quality \<open>0.9\<close> on the
  canvas of the computed size.
\<close>

datatype rejection = LoadError

definition compressImage ::
  "nat \<Rightarrow> (rat \<times> rat \<Rightarrow> rat \<Rightarrow> js_string) \<Rightarrow> loaded_image option
     \<Rightarrow> (rejection + js_string \<times> rat) option" where
  "compressImage fuel toDataURL loaded =
     (case loaded of
        None \<Rightarrow> Some (Inl LoadError)
      | Some img \<Rightarrow>
          map_option Inr (tryCompress fuel (toDataURL (canvasSize img)) (double_of (9 / 10))))"

section \<open>More example data\<close>

text \<open>
  A form with the name \<open>" hEl\t\nwO "\<close>, a stored document with the name it is stored
  under, and a snapshot of five documents.
\<close>

definition example_form :: add_form where
  "example_form = \<lparr>form_name = [0x20, 0x68, 0x45, 0x6C, 0x09, 0x0A, 0x77, 0x4F, 0x20],
                    form_image = Some [0x64]\<rparr>"

definition example_doc :: doc_data where
  "example_doc = \<lparr>doc_id = [0x79], data_name = Some [0x48, 0x65, 0x6C, 0x20, 0x57, 0x6F],
                   data_imageUrl = Some [0x64], data_createdAt = None, data_order = None\<rparr>"

definition example_docs :: "doc_data list" where
  "example_docs =
     [\<lparr>doc_id = [0x61], data_name = None, data_imageUrl = None, data_createdAt = Some 10, data_order = Some 1\<rparr>,
      \<lparr>doc_id = [0x62], data_name = None, data_imageUrl = None, data_createdAt = Some 5, data_order = None\<rparr>,
      \<lparr>doc_id = [0x63], data_name = None, data_imageUrl = None, data_createdAt = Some 7, data_order = Some 0\<rparr>,
      \<lparr>doc_id = [0x64], data_name = None, data_imageUrl = None, data_createdAt = Some 9, data_order = None\<rparr>,
      \<lparr>doc_id = [0x65], data_name = None, data_imageUrl = None, data_createdAt = Some 20, data_order = Some 1\<rparr>]"

text \<open>
  An image of 4000 by 3000 pixels, data URLs of 700000, of 600000 and of 682666
  characters, an encoder that returns the first one above quality one half and the
  second one below, and two that always return the first and the third one.
\<close>

definition example_image :: loaded_image where
  "example_image = \<lparr>img_width = 4000, img_height = 3000\<rparr>"

definition large_url :: js_string where
  "large_url = replicate 700000 0x41"

definition medium_url :: js_string where
  "medium_url = replicate 600000 0x41"

definition example_encoder :: "rat \<times> rat \<Rightarrow> rat \<Rightarrow> js_string" where
  "example_encoder canvas quality = (if 1 / 2 < quality then large_url else medium_url)"

definition stubborn_encoder :: "rat \<times> rat \<Rightarrow> rat \<Rightarrow> js_string" where
  "stubborn_encoder canvas quality = large_url"

definition boundary_url :: js_string where
  "boundary_url = replicate 682666 0x41"

definition boundary_encoder :: "rat \<times> rat \<Rightarrow> rat \<Rightarrow> js_string" where
  "boundary_encoder canvas quality = boundary_url"

section \<open>Properties of the reordering\<close>

lemma handleDrop_moves:
  assumes "draggedIndex st = Some i" "i \<noteq> j" "i < length (categories st)"
  shows "handleDrop db store st j =
           Inr \<lparr>state = st\<lparr>categories := reorder i j (categories st), draggedIndex := None\<rparr>,
                writes = batchUpdates (reorder i j (categories st)),
                stored = persist store
                  (zip (batchUpdates (reorder i j (categories st)))
                       (map snd (map db (batchUpdates (reorder i j (categories st)))))),
                console =
                  (case promise_all (map db (batchUpdates (reorder i j (categories st)))) of
                     Fulfilled \<Rightarrow> []
                   | Rejected e \<Rightarrow> [(''Failed to update category order:'', e)])\<rparr>"
  using assms by (simp add: handleDrop_def reorder_def splice_out_def Let_def)

lemma length_reorder: "i < length xs \<Longrightarrow> length (reorder i j xs) = length xs"
  by (auto simp: reorder_def splice_out_def splice_in_def)

lemma mset_reorder: "i < length xs \<Longrightarrow> mset (reorder i j xs) = mset xs"
proof -
  assume i: "i < length xs"
  let ?r = "take i xs @ drop (Suc i) xs"
  have "mset (reorder i j xs) = mset (take j ?r @ drop j ?r) + {#xs ! i#}"
    unfolding reorder_def splice_out_def splice_in_def by simp
  also have "\<dots> = mset ?r + {#xs ! i#}"
    by (simp only: append_take_drop_id)
  also have "\<dots> = mset (take i xs @ xs ! i # drop (Suc i) xs)"
    by simp
  also have "\<dots> = mset xs"
    using i by (simp only: id_take_nth_drop [symmetric])
  finally show ?thesis .
qed

lemma nth_splice_in: "j \<le> length r \<Longrightarrow> splice_in j x r ! j = x"
  by (simp add: splice_in_def nth_append)

lemma nth_reorder:
  assumes "i < length xs" "j < length xs"
  shows "reorder i j xs ! j = xs ! i"
proof -
  have "j \<le> length (fst (splice_out i xs))"
    using assms by (auto simp: splice_out_def)
  then show ?thesis
    unfolding reorder_def by (rule nth_splice_in)
qed

lemma splice_out_splice_in:
  assumes "j \<le> length r"
  shows "fst (splice_out j (splice_in j x r)) = r"
proof -
  have "take j (take j r @ x # drop j r) = take j r"
    using assms by simp
  moreover have "drop (Suc j) (take j r @ x # drop j r) = drop j r"
    using assms by (simp add: min_def)
  ultimately show ?thesis
    unfolding splice_out_def splice_in_def fst_conv
    by (simp only: append_take_drop_id)
qed

lemma splice_out_reorder:
  assumes "i < length xs" "j < length xs"
  shows "fst (splice_out j (reorder i j xs)) = fst (splice_out i xs)"
proof -
  have "j \<le> length (fst (splice_out i xs))"
    using assms by (auto simp: splice_out_def)
  then show ?thesis
    unfolding reorder_def by (rule splice_out_splice_in)
qed

lemma length_batchUpdates: "length (batchUpdates cs) = length cs"
  by (simp add: batchUpdates_def)

lemma nth_batchUpdates: "idx < length cs \<Longrightarrow> batchUpdates cs ! idx = (cat_id (cs ! idx), idx)"
  by (simp add: batchUpdates_def nth_enumerate_eq)

lemma map_fst_batchUpdates: "map fst (batchUpdates cs) = map cat_id cs"
  by (rule nth_equalityI) (simp_all add: length_batchUpdates nth_batchUpdates)

lemma map_snd_batchUpdates: "map snd (batchUpdates cs) = [0..<length cs]"
  by (rule nth_equalityI) (simp_all add: length_batchUpdates nth_batchUpdates)

lemma persist_other:
  "k \<notin> fst ` fst ` set ws \<Longrightarrow> persist store ws k = store k"
  by (induction store ws rule: persist.induct) auto

lemma persist_fulfilled:
  assumes "distinct (map (fst \<circ> fst) ws)" "((k, idx), Fulfilled) \<in> set ws"
  shows "persist store ws k = Some idx"
  using assms
proof (induction ws arbitrary: store)
  case Nil
  then show ?case by simp
next
  case (Cons w ws)
  obtain k' idx' a where w: "w = ((k', idx'), a)"
    by (metis surj_pair)
  show ?case
  proof (cases "((k, idx), Fulfilled) \<in> set ws")
    case True
    with Cons show ?thesis by (cases a) (simp_all add: w)
  next
    case False
    with Cons.prems have eq: "k' = k" "idx' = idx" "a = Fulfilled"
      by (auto simp: w)
    from Cons.prems have "k \<notin> fst ` fst ` set ws"
      unfolding w eq by force
    then show ?thesis by (simp add: w eq persist_other)
  qed
qed

lemma first_rejection_None:
  "first_rejection ps = None \<longleftrightarrow> (\<forall>p\<in>set ps. snd p = Fulfilled)"
  by (induction ps rule: first_rejection.induct) (auto split: option.splits)

lemma first_rejection_Some:
  "first_rejection ps = Some (t, e) \<Longrightarrow> (t, Rejected e) \<in> set ps"
  by (induction ps arbitrary: t e rule: first_rejection.induct)
     (auto split: option.splits if_splits)

lemma first_rejection_least:
  "first_rejection ps = Some (t, e) \<Longrightarrow> (t', Rejected e') \<in> set ps \<Longrightarrow> t \<le> t'"
  by (induction ps arbitrary: t e rule: first_rejection.induct)
     (fastforce split: option.splits if_splits simp: first_rejection_None)+

lemma handleDrop_Inr:
  assumes "handleDrop db store st j = Inr r" "draggedIndex st = Some i" "i \<noteq> j"
  shows "i < length (categories st)"
  using assms by (auto simp: handleDrop_def splice_out_def split: if_splits)

lemma distinct_reorder_ids:
  assumes "i < length xs" "distinct (map cat_id xs)"
  shows "distinct (map cat_id (reorder i j xs))"
proof -
  have "mset (map cat_id (reorder i j xs)) = mset (map cat_id xs)"
    using assms(1) by (simp add: mset_reorder)
  then show ?thesis
    using assms(2) by (metis mset_eq_imp_distinct_iff)
qed

lemma persist_batch:
  assumes "distinct (map cat_id cs)" "\<forall>w\<in>set (batchUpdates cs). snd (db w) = Fulfilled"
    and "idx < length cs"
  shows "persist store (zip (batchUpdates cs) (map snd (map db (batchUpdates cs))))
           (cat_id (cs ! idx)) = Some idx"
proof (rule persist_fulfilled)
  let ?ws = "batchUpdates cs"
  have "map (fst \<circ> fst) (zip ?ws (map snd (map db ?ws))) = map fst ?ws"
    by (rule nth_equalityI) simp_all
  then show "distinct (map (fst \<circ> fst) (zip ?ws (map snd (map db ?ws))))"
    using assms(1) by (simp add: map_fst_batchUpdates)
  have "idx < length (zip ?ws (map snd (map db ?ws)))"
    using assms(3) by (simp add: length_batchUpdates)
  moreover have "zip ?ws (map snd (map db ?ws)) ! idx = ((cat_id (cs ! idx), idx), Fulfilled)"
    using assms(2,3) by (simp add: length_batchUpdates nth_batchUpdates [symmetric])
  ultimately show "((cat_id (cs ! idx), idx), Fulfilled) \<in> set (zip ?ws (map snd (map db ?ws)))"
    by (metis nth_mem)
qed

lemma handleDrop_example:
  "handleDrop db store example_panel 2 =
     Inr \<lparr>state = \<lparr>categories = [example_categories ! 1, example_categories ! 2, example_categories ! 0],
                         draggedIndex = None\<rparr>,
          writes = [([0x62], 0), ([0x63], 1), ([0x61], 2)],
          stored = persist store
             (zip [([0x62], 0), ([0x63], 1), ([0x61], 2)]
                (map snd (map db [([0x62], 0), ([0x63], 1), ([0x61], 2)]))),
          console = (case promise_all (map db [([0x62], 0), ([0x63], 1), ([0x61], 2)]) of
                     Fulfilled \<Rightarrow> []
                   | Rejected e \<Rightarrow> [(''Failed to update category order:'', e)])\<rparr>"
  by (simp add: handleDrop_def example_panel_def example_categories_def splice_out_def
      splice_in_def batchUpdates_def enumerate_eq_zip upt_rec Let_def numeral_2_eq_2)

section \<open>Claims about the reordering\<close>

text \<open>
  C3. A drop from index \<open>i\<close> to a different index \<open>j\<close>, both within the list, leaves in
  the state a list with the same items as before (a permutation of the same length), with
  the dragged item at position \<open>j\<close>. Taking the item at \<open>j\<close> out of the new list gives
  the old list without the item at \<open>i\<close>: the other items stand in the order they had.
\<close>

theorem handleDrop_reorders:
  assumes "draggedIndex st = Some i" "i \<noteq> j"
    and "i < length (categories st)" "j < length (categories st)"
  shows "\<exists>r. handleDrop db store st j = Inr r
           \<and> mset (categories (state r)) = mset (categories st)
           \<and> length (categories (state r)) = length (categories st)
           \<and> categories (state r) ! j = categories st ! i
           \<and> fst (splice_out j (categories (state r))) = fst (splice_out i (categories st))"
  using assms
  by (simp add: handleDrop_moves mset_reorder length_reorder nth_reorder splice_out_reorder)

theorem handleDrop_reorders_witness:
  "draggedIndex example_panel = Some 0 \<and> (0::nat) \<noteq> 2
   \<and> 0 < length (categories example_panel) \<and> 2 < length (categories example_panel)
   \<and> (\<exists>r. handleDrop db_ok Map.empty example_panel 2 = Inr r
         \<and> mset (categories (state r)) = mset (categories example_panel)
         \<and> length (categories (state r)) = length (categories example_panel)
         \<and> categories (state r) ! 2 = categories example_panel ! 0
         \<and> fst (splice_out 2 (categories (state r)))
             = fst (splice_out 0 (categories example_panel)))"
proof -
  have h: "draggedIndex example_panel = Some 0" "(0::nat) \<noteq> 2"
    "0 < length (categories example_panel)" "2 < length (categories example_panel)"
    by (simp_all add: example_panel_def example_categories_def)
  show ?thesis
    using h handleDrop_reorders [OF h, of db_ok Map.empty] by simp
qed

text \<open>
  C5. A reorder issues one write for each position of the new list, to the document of the
  category at that position and with that position as its \<open>order\<close>: the written values
  are \<open>0, 1, \<dots>, N - 1\<close> and the written ids are the ids of the categories. When the ids
  are distinct and every write is fulfilled, the stored \<open>order\<close> of the category at
  position \<open>idx\<close> is \<open>idx\<close>.
\<close>

theorem handleDrop_writes_dense:
  assumes "handleDrop db store st j = Inr r" "draggedIndex st = Some i" "i \<noteq> j"
  shows "length (writes r) = length (categories st)
       \<and> mset (map fst (writes r)) = mset (map cat_id (categories st))
       \<and> map snd (writes r) = [0..<length (categories st)]
       \<and> (\<forall>idx<length (categories st).
             writes r ! idx = (cat_id (categories (state r) ! idx), idx))
       \<and> (distinct (map cat_id (categories st))
            \<and> (\<forall>w\<in>set (writes r). snd (db w) = Fulfilled)
          \<longrightarrow> (\<forall>idx<length (categories st).
                 stored r (cat_id (categories (state r) ! idx)) = Some idx))"
proof -
  let ?new = "reorder i j (categories st)"
  have i: "i < length (categories st)"
    using assms by (rule handleDrop_Inr)
  have r: "r = \<lparr>state = st\<lparr>categories := ?new, draggedIndex := None\<rparr>,
                writes = batchUpdates ?new,
                stored = persist store
                  (zip (batchUpdates ?new) (map snd (map db (batchUpdates ?new)))),
                console =
                  (case promise_all (map db (batchUpdates ?new)) of
                     Fulfilled \<Rightarrow> []
                   | Rejected e \<Rightarrow> [(''Failed to update category order:'', e)])\<rparr>"
    using assms(1) handleDrop_moves [OF assms(2,3) i, of db store] by simp
  have len: "length ?new = length (categories st)"
    using i by (rule length_reorder)
  have "length (writes r) = length (categories st)"
    by (simp add: r length_batchUpdates len)
  moreover have "mset (map fst (writes r)) = mset (map cat_id (categories st))"
    using i by (simp add: r map_fst_batchUpdates mset_reorder)
  moreover have "map snd (writes r) = [0..<length (categories st)]"
    by (simp add: r map_snd_batchUpdates len)
  moreover have "\<forall>idx<length (categories st).
      writes r ! idx = (cat_id (categories (state r) ! idx), idx)"
    by (simp add: r nth_batchUpdates len)
  moreover have "\<forall>idx<length (categories st).
      stored r (cat_id (categories (state r) ! idx)) = Some idx"
    if "distinct (map cat_id (categories st))" "\<forall>w\<in>set (writes r). snd (db w) = Fulfilled"
  proof (intro allI impI)
    fix idx assume "idx < length (categories st)"
    then have "idx < length ?new" by (simp add: len)
    moreover have "distinct (map cat_id ?new)"
      using i that(1) by (rule distinct_reorder_ids)
    moreover have "\<forall>w\<in>set (batchUpdates ?new). snd (db w) = Fulfilled"
      using that(2) by (simp add: r)
    ultimately have "persist store (zip (batchUpdates ?new) (map snd (map db (batchUpdates ?new))))
           (cat_id (?new ! idx)) = Some idx"
      by (intro persist_batch)
    then show "stored r (cat_id (categories (state r) ! idx)) = Some idx"
      by (simp add: r)
  qed
  ultimately show ?thesis by blast
qed

theorem handleDrop_writes_dense_witness:
  "\<exists>r. handleDrop db_ok Map.empty example_panel 2 = Inr r
     \<and> draggedIndex example_panel = Some 0 \<and> (0::nat) \<noteq> 2
     \<and> writes r = [([0x62], 0), ([0x63], 1), ([0x61], 2)]
     \<and> distinct (map cat_id (categories example_panel))
     \<and> (\<forall>w\<in>set (writes r). snd (db_ok w) = Fulfilled)
     \<and> (\<forall>idx<length (categories example_panel).
           stored r (cat_id (categories (state r) ! idx)) = Some idx)"
proof -
  obtain r where r: "handleDrop db_ok Map.empty example_panel 2 = Inr r"
    by (simp add: handleDrop_example)
  have h: "draggedIndex example_panel = Some 0" "(0::nat) \<noteq> 2"
    by (simp_all add: example_panel_def)
  have d: "distinct (map cat_id (categories example_panel))"
    by (simp add: example_panel_def example_categories_def)
  have w: "writes r = [([0x62], 0), ([0x63], 1), ([0x61], 2)]"
    using r by (auto simp: handleDrop_example)
  have f: "\<forall>w\<in>set (writes r). snd (db_ok w) = Fulfilled"
    by (simp add: db_ok_def)
  show ?thesis
    using handleDrop_writes_dense [OF r h] r h d w f by blast
qed

text \<open>
  C6. When one of the writes issued by \<open>handleDrop\<close> is rejected, one line is written
  with \<open>console.error\<close>, carrying the reason of a rejected write; the state keeps the
  reordered list and a cleared drag index, and the writes issued are the one batch, one
  per category, with nothing issued again.
\<close>

theorem handleDrop_failure_keeps_state:
  assumes "handleDrop db store st j = Inr r"
    and "\<exists>w\<in>set (writes r). snd (db w) \<noteq> Fulfilled"
  shows "\<exists>i e. draggedIndex st = Some i
           \<and> state r = st\<lparr>categories := reorder i j (categories st), draggedIndex := None\<rparr>
           \<and> writes r = batchUpdates (categories (state r))
           \<and> length (writes r) = length (categories st)
           \<and> console r = [(''Failed to update category order:'', e)]
           \<and> (\<exists>w\<in>set (writes r). snd (db w) = Rejected e)"
proof -
  from assms obtain i where d: "draggedIndex st = Some i" and ij: "i \<noteq> j"
    by (cases "draggedIndex st") (auto simp: handleDrop_def split: if_splits)
  let ?new = "reorder i j (categories st)"
  have i: "i < length (categories st)"
    using assms(1) d ij by (rule handleDrop_Inr)
  have r: "r = \<lparr>state = st\<lparr>categories := ?new, draggedIndex := None\<rparr>,
                writes = batchUpdates ?new,
                stored = persist store
                  (zip (batchUpdates ?new) (map snd (map db (batchUpdates ?new)))),
                console =
                  (case promise_all (map db (batchUpdates ?new)) of
                     Fulfilled \<Rightarrow> []
                   | Rejected e \<Rightarrow> [(''Failed to update category order:'', e)])\<rparr>"
    using assms(1) handleDrop_moves [OF d ij i, of db store] by simp
  have "first_rejection (map db (batchUpdates ?new)) \<noteq> None"
    using assms(2) by (auto simp: first_rejection_None r)
  then obtain t e where f: "first_rejection (map db (batchUpdates ?new)) = Some (t, e)"
    by auto
  then have "(t, Rejected e) \<in> set (map db (batchUpdates ?new))"
    by (rule first_rejection_Some)
  then obtain w where w: "w \<in> set (batchUpdates ?new)" "db w = (t, Rejected e)"
    by auto
  have "console r = [(''Failed to update category order:'', e)]"
    by (simp add: r promise_all_def f)
  moreover have "\<exists>w\<in>set (writes r). snd (db w) = Rejected e"
  proof -
    have "snd (db w) = Rejected e" "w \<in> set (writes r)"
      using w by (simp_all add: r)
    then show ?thesis by blast
  qed
  moreover have "length (writes r) = length (categories st)"
    using i by (simp add: r length_batchUpdates length_reorder)
  ultimately show ?thesis
    using d by (simp add: r)
qed

theorem handleDrop_failure_keeps_state_witness:
  "\<exists>r. handleDrop db_failing Map.empty example_panel 2 = Inr r
     \<and> (\<exists>w\<in>set (writes r). snd (db_failing w) \<noteq> Fulfilled)
     \<and> categories (state r) = [example_categories ! 1, example_categories ! 2, example_categories ! 0]
     \<and> draggedIndex (state r) = None
     \<and> writes r = [([0x62], 0), ([0x63], 1), ([0x61], 2)]
     \<and> console r = [(''Failed to update category order:'', ''unavailable'')]"
proof -
  obtain r where r: "handleDrop db_failing Map.empty example_panel 2 = Inr r"
    by (simp add: handleDrop_example)
  have w: "writes r = [([0x62], 0), ([0x63], 1), ([0x61], 2)]"
    and s: "categories (state r) = [example_categories ! 1, example_categories ! 2, example_categories ! 0]"
      "draggedIndex (state r) = None"
    and c: "console r = [(''Failed to update category order:'', ''unavailable'')]"
    using r by (auto simp: handleDrop_example promise_all_def db_failing_def)
  have f: "\<exists>w\<in>set (writes r). snd (db_failing w) \<noteq> Fulfilled"
    by (simp add: w db_failing_def)
  show ?thesis
    using handleDrop_failure_keeps_state [OF r f] r f w s c by blast
qed

text \<open>
  C10. With no drag in progress, or with the drop index equal to the dragged index,
  \<open>handleDrop\<close> leaves the state and the stored orders as they are, issues no write and
  logs nothing.
\<close>

theorem handleDrop_no_drag:
  assumes "draggedIndex st = None \<or> draggedIndex st = Some dropIndex"
  shows "handleDrop db store st dropIndex =
           Inr \<lparr>state = st, writes = [], stored = store, console = []\<rparr>"
  using assms by (auto simp: handleDrop_def)

theorem handleDrop_no_drag_witness:
  "handleDrop db_ok Map.empty (example_panel\<lparr>draggedIndex := None\<rparr>) 1 =
     Inr \<lparr>state = example_panel\<lparr>draggedIndex := None\<rparr>, writes = [],
          stored = Map.empty, console = []\<rparr>
   \<and> draggedIndex example_panel = Some 0
   \<and> handleDrop db_ok Map.empty example_panel 0 =
     Inr \<lparr>state = example_panel, writes = [], stored = Map.empty, console = []\<rparr>"
proof -
  have a: "draggedIndex (example_panel\<lparr>draggedIndex := None\<rparr>) = None
         \<or> draggedIndex (example_panel\<lparr>draggedIndex := None\<rparr>) = Some 1"
    by simp
  have b: "draggedIndex example_panel = None \<or> draggedIndex example_panel = Some 0"
    by (simp add: example_panel_def)
  show ?thesis
    using handleDrop_no_drag [OF a, of db_ok Map.empty] handleDrop_no_drag [OF b, of db_ok Map.empty]
    by (simp add: example_panel_def)
qed

section \<open>Properties of the name normalisation\<close>

lemma is_ws_space: "is_ws 0x20"
  by (simp add: is_ws_def)

lemma no_ws_no_space: "no_ws w \<Longrightarrow> 0x20 \<notin> set w"
  using is_ws_space by (auto simp: no_ws_def)

lemma split_sp_not_Nil: "split_sp s \<noteq> []"
  by (induction s) (auto split: list.splits)

lemma split_sp_word: "0x20 \<notin> set w \<Longrightarrow> split_sp w = [w]"
  by (induction w) auto

lemma split_sp_append: "0x20 \<notin> set w \<Longrightarrow> split_sp (w @ 0x20 # t) = w # split_sp t"
  by (induction w) auto

lemma split_sp_join_sp:
  "ws \<noteq> [] \<Longrightarrow> \<forall>w\<in>set ws. 0x20 \<notin> set w \<Longrightarrow> split_sp (join_sp ws) = ws"
  by (induction ws rule: join_sp.induct) (simp_all add: split_sp_word split_sp_append)

lemma collapse_append: "no_ws w \<Longrightarrow> collapse (w @ t) = w @ collapse t"
  by (induction w) (auto simp: no_ws_def)

lemma collapse_no_ws: "no_ws w \<Longrightarrow> collapse w = w"
  using collapse_append [of w "[]"] by simp

lemma hd_join_sp: "proper_words ws \<Longrightarrow> join_sp ws \<noteq> [] \<and> \<not> is_ws (hd (join_sp ws))"
  by (induction ws rule: join_sp.induct) (auto simp: proper_words_def no_ws_def)

lemma last_join_sp: "proper_words ws \<Longrightarrow> \<not> is_ws (last (join_sp ws))"
proof (induction ws rule: join_sp.induct)
  case 1
  then show ?case by (simp add: proper_words_def)
next
  case (2 w)
  then show ?case by (simp add: proper_words_def no_ws_def)
next
  case (3 w v vs)
  then have pw: "proper_words (v # vs)"
    by (simp add: proper_words_def)
  with 3 hd_join_sp [OF pw] show ?case
    by simp
qed

lemma dropWhile_hd: "s \<noteq> [] \<Longrightarrow> \<not> P (hd s) \<Longrightarrow> dropWhile P s = s"
  by (cases s) auto

lemma collapse_join_sp: "proper_words ws \<Longrightarrow> collapse (join_sp ws) = join_sp ws"
proof (induction ws rule: join_sp.induct)
  case 1
  then show ?case by simp
next
  case (2 w)
  then show ?case by (simp add: proper_words_def collapse_no_ws)
next
  case (3 w v vs)
  then have pw: "proper_words (v # vs)" and w: "no_ws w"
    by (simp_all add: proper_words_def)
  from hd_join_sp [OF pw] have "dropWhile is_ws (join_sp (v # vs)) = join_sp (v # vs)"
    by (intro dropWhile_hd) simp_all
  with 3 pw w show ?case
    by (simp add: collapse_append is_ws_space del: join_sp.simps(3) add: join_sp.simps(3) [of w v vs])
qed

lemma trim_id: "s \<noteq> [] \<Longrightarrow> \<not> is_ws (hd s) \<Longrightarrow> \<not> is_ws (last s) \<Longrightarrow> trim s = s"
  by (simp add: trim_def dropWhile_hd hd_rev)

lemma trim_join_sp: "proper_words ws \<Longrightarrow> trim (join_sp ws) = join_sp ws"
  by (simp add: trim_id hd_join_sp last_join_sp)

lemma normal_join_sp:
  assumes "proper_words ws"
  shows "split_sp (collapse (trim (join_sp ws))) = ws"
  using assms
  by (simp add: trim_join_sp collapse_join_sp split_sp_join_sp proper_words_def no_ws_no_space)

lemma unat_sub_0x20: "(0x20::16 word) \<le> c \<Longrightarrow> unat (c - 0x20) = unat c - 32"
  by (simp add: unat_sub)

lemma unat_add_0x20: "(c::16 word) \<le> 0xFF \<Longrightarrow> unat (c + 0x20) = unat c + 32"
  by (simp add: unat_word_ariths word_le_nat_alt)

lemma latin1_lower_shift:
  assumes "(0x41::16 word) \<le> c \<and> c \<le> 0x5A \<or> 0xC0 \<le> c \<and> c \<le> 0xDE \<and> c \<noteq> 0xD7"
  shows "latin1_lower (c + 0x20) = [c + 0x20] \<and> \<not> is_ws (c + 0x20) \<and> \<not> is_ws c \<and> c + 0x20 \<le> 0xFF"
proof -
  have c: "c \<le> 0xFF"
    using assms by (simp add: word_le_nat_alt) arith
  show ?thesis
    using assms unat_add_0x20 [OF c] unfolding latin1_lower_def is_ws_def
    by (simp add: word_le_nat_alt word_unat_eq_iff) arith
qed

lemma latin1_lower_single:
  "\<exists>d. latin1_lower c = [d] \<and> latin1_lower d = [d] \<and> (is_ws d \<longleftrightarrow> is_ws c) \<and> (c \<le> 0xFF \<longrightarrow> d \<le> 0xFF)"
proof (cases "0x41 \<le> c \<and> c \<le> 0x5A \<or> 0xC0 \<le> c \<and> c \<le> 0xDE \<and> c \<noteq> 0xD7")
  case True
  then have "latin1_lower c = [c + 0x20]"
    by (auto simp: latin1_lower_def)
  with latin1_lower_shift [OF True] show ?thesis by simp
next
  case False
  then have "latin1_lower c = [c]"
    by (auto simp: latin1_lower_def)
  then show ?thesis by simp
qed

lemma latin1_upper_shift:
  assumes "(0x61::16 word) \<le> c \<and> c \<le> 0x7A \<or> 0xE0 \<le> c \<and> c \<le> 0xFE \<and> c \<noteq> 0xF7"
  shows "latin1_upper (c - 0x20) = [c - 0x20] \<and> \<not> is_ws (c - 0x20) \<and> \<not> is_ws c"
proof -
  have c: "0x20 \<le> c"
    using assms by (simp add: word_le_nat_alt) arith
  show ?thesis
    using assms unat_sub_0x20 [OF c] unfolding latin1_upper_def is_ws_def
    by (simp add: word_le_nat_alt word_unat_eq_iff) arith
qed

lemma latin1_upper_single:
  assumes "c \<noteq> 0xDF"
  shows "\<exists>d. latin1_upper c = [d] \<and> latin1_upper d = [d] \<and> (is_ws d \<longleftrightarrow> is_ws c)"
proof (cases "0x61 \<le> c \<and> c \<le> 0x7A \<or> 0xE0 \<le> c \<and> c \<le> 0xFE \<and> c \<noteq> 0xF7")
  case True
  then have "latin1_upper c = [c - 0x20]"
    unfolding latin1_upper_def by (simp add: word_le_nat_alt word_unat_eq_iff) arith
  with latin1_upper_shift [OF True] show ?thesis by simp
next
  case False
  show ?thesis
  proof (cases "c = 0xB5 \<or> c = 0xFF")
    case True
    then show ?thesis
      by (auto simp: latin1_upper_def is_ws_def)
  next
    case no: False
    with False assms have "latin1_upper c = [c]"
      by (auto simp: latin1_upper_def)
    then show ?thesis by simp
  qed
qed

lemma latin1_upper_sharp_s: "latin1_upper 0xDF = [0x53, 0x53]"
  by (simp add: latin1_upper_def)

lemma latin1_upper_no_ws: "\<not> is_ws c \<Longrightarrow> latin1_upper c \<noteq> [] \<and> no_ws (latin1_upper c)"
proof (cases "c = 0xDF")
  case True
  then show ?thesis by (simp add: latin1_upper_sharp_s no_ws_def is_ws_def)
next
  case False
  assume "\<not> is_ws c"
  with latin1_upper_single [OF False] show ?thesis by (auto simp: no_ws_def)
qed

lemma latin1_lower_no_ws: "no_ws s \<Longrightarrow> no_ws (concat (map latin1_lower s))"
proof (induction s)
  case Nil
  then show ?case by simp
next
  case (Cons c s)
  obtain d where "latin1_lower c = [d]" "is_ws d \<longleftrightarrow> is_ws c"
    using latin1_lower_single [of c] by blast
  with Cons show ?case by (simp add: no_ws_def)
qed

lemma keeps_words_latin1: "keeps_words latin1_case"
  by (simp add: keeps_words_def latin1_case_def latin1_upper_no_ws latin1_lower_no_ws)

lemma capitalize_Cons: "capitalize cm (c # w) = toUpperCase cm [c] @ toLowerCase cm w"
  by (simp add: capitalize_def)

lemma capitalize_Nil: "keeps_words cm \<Longrightarrow> capitalize cm [] = []"
  by (simp add: capitalize_def keeps_words_def)

lemma capitalize_proper:
  assumes "keeps_words cm" "w \<noteq> []" "no_ws w"
  shows "capitalize cm w \<noteq> [] \<and> no_ws (capitalize cm w)"
proof -
  obtain c v where w: "w = c # v"
    using assms(2) by (cases w) auto
  have "\<not> is_ws c" "no_ws v"
    using assms(3) by (simp_all add: w no_ws_def)
  then have "toUpperCase cm [c] \<noteq> []" "no_ws (toUpperCase cm [c])" "no_ws (toLowerCase cm v)"
    using assms(1) by (simp_all add: keeps_words_def)
  then show ?thesis
    by (auto simp: w capitalize_Cons no_ws_def)
qed

lemma capitalize_single_upper:
  assumes "toUpperCase cm (take 1 w) = [d]" "toUpperCase cm [d] = [d]"
    and "toLowerCase cm (toLowerCase cm (drop 1 w)) = toLowerCase cm (drop 1 w)"
  shows "capitalize cm (capitalize cm w) = capitalize cm w"
proof -
  have "capitalize cm w = d # toLowerCase cm (drop 1 w)"
    using assms(1) by (simp add: capitalize_def)
  then show ?thesis
    using assms(2,3) by (simp add: capitalize_Cons)
qed

lemma capitalize_long_upper:
  assumes "toUpperCase cm (take 1 w) = d # e # r" "toUpperCase cm [d] = [d]"
    and "toLowerCase cm (e # r @ toLowerCase cm (drop 1 w)) \<noteq> e # r @ toLowerCase cm (drop 1 w)"
  shows "capitalize cm (capitalize cm w) \<noteq> capitalize cm w"
proof -
  have "capitalize cm w = d # e # r @ toLowerCase cm (drop 1 w)"
    using assms(1) by (simp add: capitalize_def)
  then show ?thesis
    using assms(2,3) by (simp add: capitalize_Cons)
qed

text \<open>
  The sharp s under any case mapping with the four values that Unicode gives.
\<close>

lemma sharp_s_twice:
  assumes "toUpperCase cm [0xDF] = [0x53, 0x53]" "toUpperCase cm [0x53] = [0x53]"
    and "toLowerCase cm [] = []" "toLowerCase cm [0x53] = [0x73]"
  shows "formatName cm [0xDF] = [0x53, 0x53]"
    and "formatName cm (formatName cm [0xDF]) = [0x53, 0x73]"
  using assms by (simp_all add: formatName_def trim_def is_ws_def capitalize_def)

lemma last_dropWhile: "dropWhile P xs \<noteq> [] \<Longrightarrow> last (dropWhile P xs) = last xs"
  by (induction xs) (auto split: if_splits)

lemma dropWhile_not_Nil_last: "xs \<noteq> [] \<Longrightarrow> \<not> P (last xs) \<Longrightarrow> dropWhile P xs \<noteq> []"
  by (induction xs) (auto split: if_splits)

lemma trim_edges:
  assumes "trim s \<noteq> []"
  shows "\<not> is_ws (hd (trim s)) \<and> \<not> is_ws (last (trim s))"
proof -
  let ?a = "dropWhile is_ws s"
  let ?b = "dropWhile is_ws (rev ?a)"
  have b: "?b \<noteq> []"
    using assms by (simp add: trim_def)
  have a: "?a \<noteq> []"
  proof
    assume "?a = []"
    then have "?b = []" by (simp only: rev.simps dropWhile.simps)
    with b show False ..
  qed
  have "\<not> is_ws (hd ?b)"
    using b by (rule hd_dropWhile)
  then have l: "\<not> is_ws (last (trim s))"
    using b by (simp add: trim_def last_rev)
  have "last ?b = last (rev ?a)"
    using b by (rule last_dropWhile)
  also have "\<dots> = hd ?a"
    using a by (simp add: last_rev)
  finally have "hd (trim s) = hd ?a"
    using b by (simp add: trim_def hd_rev)
  moreover have "\<not> is_ws (hd ?a)"
    using a by (rule hd_dropWhile)
  ultimately show ?thesis
    using l by simp
qed

lemma split_collapse:
  assumes "t = [] \<or> \<not> is_ws (last t)"
  shows "\<exists>w ws. split_sp (collapse t) = w # ws \<and> no_ws w
           \<and> (w = [] \<longleftrightarrow> t = [] \<or> is_ws (hd t))
           \<and> (\<forall>v\<in>set ws. v \<noteq> [] \<and> no_ws v)"
  using assms
proof (induction t rule: collapse.induct)
  case 1
  then show ?case by (simp add: no_ws_def)
next
  case (2 c cs)
  show ?case
  proof (cases "is_ws c")
    case True
    let ?d = "dropWhile is_ws cs"
    from 2(3) True have cs: "cs \<noteq> []" "\<not> is_ws (last cs)"
      by (auto split: if_splits)
    then have d: "?d \<noteq> []"
      by (rule dropWhile_not_Nil_last)
    then have "last ?d = last cs"
      by (rule last_dropWhile)
    then have "?d = [] \<or> \<not> is_ws (last ?d)"
      using cs by simp
    from 2(1) [OF True this] obtain w ws where
      s: "split_sp (collapse ?d) = w # ws" "no_ws w" "w = [] \<longleftrightarrow> ?d = [] \<or> is_ws (hd ?d)"
        "\<forall>v\<in>set ws. v \<noteq> [] \<and> no_ws v"
      by blast
    have "\<not> is_ws (hd ?d)"
      using d by (rule hd_dropWhile)
    with s d have "w \<noteq> []" by simp
    with s True show ?thesis
      by (simp add: no_ws_def)
  next
    case False
    from 2(3) have "cs = [] \<or> \<not> is_ws (last cs)"
      by (auto split: if_splits)
    from 2(2) [OF False this] obtain w ws where
      s: "split_sp (collapse cs) = w # ws" "no_ws w" "\<forall>v\<in>set ws. v \<noteq> [] \<and> no_ws v"
      by blast
    from False have "c \<noteq> 0x20"
      using is_ws_space by auto
    with s False show ?thesis
      by (simp add: no_ws_def)
  qed
qed

lemma words_of_trim:
  assumes "trim s \<noteq> []"
  shows "proper_words (split_sp (collapse (trim s)))"
proof -
  from trim_edges [OF assms] have e: "\<not> is_ws (hd (trim s))" "\<not> is_ws (last (trim s))"
    by simp_all
  then obtain w ws where
    "split_sp (collapse (trim s)) = w # ws" "no_ws w" "w = [] \<longleftrightarrow> trim s = [] \<or> is_ws (hd (trim s))"
    "\<forall>v\<in>set ws. v \<noteq> [] \<and> no_ws v"
    using split_collapse [of "trim s"] by blast
  with assms e show ?thesis
    by (simp add: proper_words_def)
qed

lemma formatName_blank: "keeps_words cm \<Longrightarrow> trim s = [] \<Longrightarrow> formatName cm s = []"
  by (simp add: formatName_def capitalize_Nil)

lemma proper_words_capitalize:
  "keeps_words cm \<Longrightarrow> proper_words ws \<Longrightarrow> proper_words (map (capitalize cm) ws)"
  by (simp add: proper_words_def capitalize_proper)

lemma formatName_not_Nil:
  assumes "keeps_words cm" "trim s \<noteq> []"
  shows "formatName cm s \<noteq> []"
proof -
  have "proper_words (map (capitalize cm) (split_sp (collapse (trim s))))"
    using assms by (intro proper_words_capitalize words_of_trim)
  then show ?thesis
    unfolding formatName_def by (simp add: hd_join_sp)
qed

lemma trim_formatName:
  assumes "keeps_words cm" "trim s \<noteq> []"
  shows "trim (formatName cm s) = formatName cm s"
proof -
  have "proper_words (map (capitalize cm) (split_sp (collapse (trim s))))"
    using assms by (intro proper_words_capitalize words_of_trim)
  then show ?thesis
    unfolding formatName_def by (rule trim_join_sp)
qed

lemma formatName_twice:
  assumes "keeps_words cm"
  shows "formatName cm (formatName cm s) =
     join_sp (map (capitalize cm \<circ> capitalize cm) (split_sp (collapse (trim s))))"
proof (cases "trim s = []")
  case True
  have "formatName cm s = []"
    using assms True by (rule formatName_blank)
  moreover have "formatName cm [] = []"
    using assms by (intro formatName_blank) (simp_all add: trim_def)
  ultimately show ?thesis
    using assms True by (simp add: capitalize_Nil)
next
  case False
  then have "proper_words (map (capitalize cm) (split_sp (collapse (trim s))))"
    using assms by (intro proper_words_capitalize words_of_trim)
  then have "split_sp (collapse (trim (formatName cm s)))
      = map (capitalize cm) (split_sp (collapse (trim s)))"
    unfolding formatName_def by (rule normal_join_sp)
  then show ?thesis
    by (simp add: formatName_def [of cm "formatName cm s"])
qed

lemma join_sp_inject:
  assumes "proper_words us" "proper_words vs" "join_sp us = join_sp vs"
  shows "us = vs"
proof -
  have "us = split_sp (join_sp us)"
    using assms(1) by (simp add: split_sp_join_sp proper_words_def no_ws_no_space)
  also have "\<dots> = split_sp (join_sp vs)"
    by (simp only: assms(3))
  also have "\<dots> = vs"
    using assms(2) by (simp add: split_sp_join_sp proper_words_def no_ws_no_space)
  finally show ?thesis .
qed

lemma formatName_idempotent_words:
  assumes "keeps_words cm"
  shows "formatName cm (formatName cm s) = formatName cm s
         \<longleftrightarrow> (\<forall>w\<in>set (split_sp (collapse (trim s))).
                capitalize cm (capitalize cm w) = capitalize cm w)"
proof
  assume "\<forall>w\<in>set (split_sp (collapse (trim s))). capitalize cm (capitalize cm w) = capitalize cm w"
  then have "map (capitalize cm \<circ> capitalize cm) (split_sp (collapse (trim s)))
      = map (capitalize cm) (split_sp (collapse (trim s)))"
    by simp
  then show "formatName cm (formatName cm s) = formatName cm s"
    by (simp only: formatName_twice [OF assms]) (simp add: formatName_def)
next
  assume idem: "formatName cm (formatName cm s) = formatName cm s"
  let ?ws = "split_sp (collapse (trim s))"
  show "\<forall>w\<in>set ?ws. capitalize cm (capitalize cm w) = capitalize cm w"
  proof (cases "trim s = []")
    case True
    then show ?thesis
      using assms by (simp add: capitalize_Nil)
  next
    case False
    then have p: "proper_words ?ws"
      by (rule words_of_trim)
    with assms have p1: "proper_words (map (capitalize cm) ?ws)"
      by (rule proper_words_capitalize)
    with assms have "proper_words (map (capitalize cm) (map (capitalize cm) ?ws))"
      by (rule proper_words_capitalize)
    then have p2: "proper_words (map (capitalize cm \<circ> capitalize cm) ?ws)"
      by simp
    have "join_sp (map (capitalize cm \<circ> capitalize cm) ?ws) = join_sp (map (capitalize cm) ?ws)"
      using idem by (simp only: formatName_twice [OF assms]) (simp add: formatName_def)
    with p2 p1 have "map (capitalize cm \<circ> capitalize cm) ?ws = map (capitalize cm) ?ws"
      by (rule join_sp_inject)
    then show ?thesis
      by simp
  qed
qed

lemma formatName_formatName_not_Nil:
  assumes "keeps_words cm" "trim s \<noteq> []"
  shows "formatName cm (formatName cm s) \<noteq> []"
proof -
  have "trim (formatName cm s) \<noteq> []"
    using assms by (simp add: trim_formatName formatName_not_Nil)
  with assms(1) show ?thesis
    by (rule formatName_not_Nil)
qed

lemma trim_Unnamed: "trim Unnamed \<noteq> []"
  by (simp add: Unnamed_def trim_def is_ws_def)

lemmas latin1_eval =
  formatName_def trim_def is_ws_def capitalize_def latin1_case_def latin1_upper_def
  latin1_lower_def

section \<open>Claims about the names\<close>

text \<open>
  C4, as amended. \<open>formatName\<close> is not idempotent on every string. Applying it twice to
  a string gives the same as applying it once exactly when this holds of the
  capitalisation of every word of the string (the words of the trimmed string with its
  white space collapsed). It does hold when, for every word, the upper case of the first
  code unit is one code unit that \<open>toUpperCase\<close> leaves as it is and \<open>toLowerCase\<close>
  applied twice to the rest gives the same as applied once, as in every string of ASCII
  characters. It does not hold when the upper case of the first code unit of some
  word has further code units that \<open>toLowerCase\<close> changes, as for a word that begins
  with the sharp s, whose upper case \<open>SS\<close> has a second letter that the next
  application lowers.
\<close>

theorem formatName_idempotent_iff:
  assumes "keeps_words cm"
  shows "(formatName cm (formatName cm s) = formatName cm s
          \<longleftrightarrow> (\<forall>w\<in>set (split_sp (collapse (trim s))).
                 capitalize cm (capitalize cm w) = capitalize cm w))
       \<and> ((\<forall>w\<in>set (split_sp (collapse (trim s))).
              w \<noteq> [] \<longrightarrow>
              (\<exists>d. toUpperCase cm (take 1 w) = [d] \<and> toUpperCase cm [d] = [d])
              \<and> toLowerCase cm (toLowerCase cm (drop 1 w)) = toLowerCase cm (drop 1 w))
            \<longrightarrow> formatName cm (formatName cm s) = formatName cm s)
       \<and> ((\<exists>w\<in>set (split_sp (collapse (trim s))). \<exists>d e r.
              toUpperCase cm (take 1 w) = d # e # r \<and> toUpperCase cm [d] = [d]
              \<and> toLowerCase cm (e # r @ toLowerCase cm (drop 1 w))
                  \<noteq> e # r @ toLowerCase cm (drop 1 w))
            \<longrightarrow> formatName cm (formatName cm s) \<noteq> formatName cm s)"
proof (intro conjI)
  show iff: "formatName cm (formatName cm s) = formatName cm s
          \<longleftrightarrow> (\<forall>w\<in>set (split_sp (collapse (trim s))).
                 capitalize cm (capitalize cm w) = capitalize cm w)"
    using assms by (rule formatName_idempotent_words)
  show "(\<forall>w\<in>set (split_sp (collapse (trim s))).
              w \<noteq> [] \<longrightarrow>
              (\<exists>d. toUpperCase cm (take 1 w) = [d] \<and> toUpperCase cm [d] = [d])
              \<and> toLowerCase cm (toLowerCase cm (drop 1 w)) = toLowerCase cm (drop 1 w))
            \<longrightarrow> formatName cm (formatName cm s) = formatName cm s"
  proof
    assume a: "\<forall>w\<in>set (split_sp (collapse (trim s))).
              w \<noteq> [] \<longrightarrow>
              (\<exists>d. toUpperCase cm (take 1 w) = [d] \<and> toUpperCase cm [d] = [d])
              \<and> toLowerCase cm (toLowerCase cm (drop 1 w)) = toLowerCase cm (drop 1 w)"
    have "\<forall>w\<in>set (split_sp (collapse (trim s))). capitalize cm (capitalize cm w) = capitalize cm w"
    proof
      fix w assume w: "w \<in> set (split_sp (collapse (trim s)))"
      show "capitalize cm (capitalize cm w) = capitalize cm w"
      proof (cases "w = []")
        case True
        then show ?thesis
          using assms by (simp add: capitalize_Nil)
      next
        case False
        with a w obtain d where "toUpperCase cm (take 1 w) = [d]" "toUpperCase cm [d] = [d]"
          "toLowerCase cm (toLowerCase cm (drop 1 w)) = toLowerCase cm (drop 1 w)"
          by blast
        then show ?thesis
          by (rule capitalize_single_upper)
      qed
    qed
    then show "formatName cm (formatName cm s) = formatName cm s"
      using iff by blast
  qed
  show "(\<exists>w\<in>set (split_sp (collapse (trim s))). \<exists>d e r.
              toUpperCase cm (take 1 w) = d # e # r \<and> toUpperCase cm [d] = [d]
              \<and> toLowerCase cm (e # r @ toLowerCase cm (drop 1 w))
                  \<noteq> e # r @ toLowerCase cm (drop 1 w))
            \<longrightarrow> formatName cm (formatName cm s) \<noteq> formatName cm s"
  proof
    assume "\<exists>w\<in>set (split_sp (collapse (trim s))). \<exists>d e r.
              toUpperCase cm (take 1 w) = d # e # r \<and> toUpperCase cm [d] = [d]
              \<and> toLowerCase cm (e # r @ toLowerCase cm (drop 1 w))
                  \<noteq> e # r @ toLowerCase cm (drop 1 w)"
    then obtain w d e r where w: "w \<in> set (split_sp (collapse (trim s)))"
      and u: "toUpperCase cm (take 1 w) = d # e # r" "toUpperCase cm [d] = [d]"
      and l: "toLowerCase cm (e # r @ toLowerCase cm (drop 1 w))
                  \<noteq> e # r @ toLowerCase cm (drop 1 w)"
      by blast
    have "capitalize cm (capitalize cm w) \<noteq> capitalize cm w"
      by (rule capitalize_long_upper [OF u l])
    with w show "formatName cm (formatName cm s) \<noteq> formatName cm s"
      using iff by blast
  qed
qed

theorem formatName_idempotent_iff_witness:
  "formatName latin1_case [0x20, 0x68, 0x45, 0x6C, 0x09, 0x0A, 0x77, 0x4F, 0x20]
     = [0x48, 0x65, 0x6C, 0x20, 0x57, 0x6F]
   \<and> formatName latin1_case
         (formatName latin1_case [0x20, 0x68, 0x45, 0x6C, 0x09, 0x0A, 0x77, 0x4F, 0x20])
       = formatName latin1_case [0x20, 0x68, 0x45, 0x6C, 0x09, 0x0A, 0x77, 0x4F, 0x20]"
proof -
  have w: "\<forall>w\<in>set (split_sp (collapse (trim [0x20, 0x68, 0x45, 0x6C, 0x09, 0x0A, 0x77, 0x4F, 0x20]))).
         w \<noteq> [] \<longrightarrow>
         (\<exists>d. toUpperCase latin1_case (take 1 w) = [d] \<and> toUpperCase latin1_case [d] = [d])
         \<and> toLowerCase latin1_case (toLowerCase latin1_case (drop 1 w))
             = toLowerCase latin1_case (drop 1 w)"
    by (simp add: latin1_eval)
  have f: "formatName latin1_case [0x20, 0x68, 0x45, 0x6C, 0x09, 0x0A, 0x77, 0x4F, 0x20]
       = [0x48, 0x65, 0x6C, 0x20, 0x57, 0x6F]"
    by (simp add: latin1_eval)
  show ?thesis
    using w f formatName_idempotent_iff [OF keeps_words_latin1] by blast
qed

text \<open>
  The input on which the claim C4 fails: the string that consists of the sharp s.
\<close>

theorem formatName_sharp_s_not_idempotent:
  "formatName latin1_case [0xDF] = [0x53, 0x53]
   \<and> formatName latin1_case (formatName latin1_case [0xDF]) = [0x53, 0x73]
   \<and> formatName latin1_case (formatName latin1_case [0xDF]) \<noteq> formatName latin1_case [0xDF]"
proof -
  have "toUpperCase latin1_case [0xDF] = [0x53, 0x53]" "toUpperCase latin1_case [0x53] = [0x53]"
    "toLowerCase latin1_case [] = []" "toLowerCase latin1_case [0x53] = [0x73]"
    by (simp_all add: latin1_case_def latin1_upper_def latin1_lower_def)
  then have "formatName latin1_case [0xDF] = [0x53, 0x53]"
    and "formatName latin1_case (formatName latin1_case [0xDF]) = [0x53, 0x73]"
    by (rule sharp_s_twice)+
  then show ?thesis
    by (simp only:) simp
qed

text \<open>
  C8. \<open>handleSubmit\<close> refuses a name whose trimmed form is empty; the name that it
  hands to \<open>addDoc\<close> is not empty, and neither is \<open>formatName\<close> of it. The listener
  gives the name \<open>Unnamed\<close> to a document whose name is absent or empty, and to a
  document with a name that \<open>handleSubmit\<close> stored (or any name with a character that is
  not white space) it gives \<open>formatName\<close> of that name, which is not empty and stays so
  under \<open>formatName\<close>.
\<close>

theorem category_name_not_empty:
  assumes "keeps_words cm"
  shows "(trim (form_name f) = [] \<longrightarrow> handleSubmit cm f = Alert ''Category name is required.'')
   \<and> (handleSubmit cm f = AddDoc d \<longrightarrow> new_name d \<noteq> [] \<and> formatName cm (new_name d) \<noteq> [])
   \<and> (data_name doc = None \<or> data_name doc = Some [] \<longrightarrow>
        cat_name (toCategory cm doc) = Some Unnamed \<and> Unnamed \<noteq> []
        \<and> formatName cm Unnamed \<noteq> [])
   \<and> (\<forall>n. data_name doc = Some n \<and> trim n \<noteq> [] \<longrightarrow>
        cat_name (toCategory cm doc) = Some (formatName cm n)
        \<and> formatName cm n \<noteq> [] \<and> formatName cm (formatName cm n) \<noteq> [])
   \<and> (handleSubmit cm f = AddDoc d \<and> data_name doc = Some (new_name d) \<longrightarrow>
        (\<exists>m. cat_name (toCategory cm doc) = Some m \<and> m \<noteq> [] \<and> formatName cm m \<noteq> []))"
proof -
  have stored: "trim (form_name f) \<noteq> [] \<and> new_name d = formatName cm (form_name f)"
    if "handleSubmit cm f = AddDoc d"
    using that by (auto simp: handleSubmit_def split: if_splits option.splits)
  have shown: "cat_name (toCategory cm doc) = Some (formatName cm n)
        \<and> formatName cm n \<noteq> [] \<and> formatName cm (formatName cm n) \<noteq> []"
    if "data_name doc = Some n" "trim n \<noteq> []" for n
  proof -
    from that(2) have "n \<noteq> []"
      by (auto simp: trim_def)
    with that assms show ?thesis
      by (simp add: toCategory_def formatName_not_Nil formatName_formatName_not_Nil)
  qed
  have 0: "trim (form_name f) = [] \<longrightarrow> handleSubmit cm f = Alert ''Category name is required.''"
    by (simp add: handleSubmit_def)
  have 1: "handleSubmit cm f = AddDoc d \<longrightarrow> new_name d \<noteq> [] \<and> formatName cm (new_name d) \<noteq> []"
    using stored assms by (auto simp: formatName_not_Nil formatName_formatName_not_Nil)
  have "Unnamed \<noteq> []"
    by (simp add: Unnamed_def)
  moreover have "formatName cm Unnamed \<noteq> []"
    using assms trim_Unnamed by (rule formatName_not_Nil)
  ultimately have 2: "data_name doc = None \<or> data_name doc = Some [] \<longrightarrow>
        cat_name (toCategory cm doc) = Some Unnamed \<and> Unnamed \<noteq> []
        \<and> formatName cm Unnamed \<noteq> []"
    by (auto simp: toCategory_def)
  have 3: "\<forall>n. data_name doc = Some n \<and> trim n \<noteq> [] \<longrightarrow>
        cat_name (toCategory cm doc) = Some (formatName cm n)
        \<and> formatName cm n \<noteq> [] \<and> formatName cm (formatName cm n) \<noteq> []"
    using shown by blast
  have 4: "handleSubmit cm f = AddDoc d \<and> data_name doc = Some (new_name d) \<longrightarrow>
        (\<exists>m. cat_name (toCategory cm doc) = Some m \<and> m \<noteq> [] \<and> formatName cm m \<noteq> [])"
  proof
    assume a: "handleSubmit cm f = AddDoc d \<and> data_name doc = Some (new_name d)"
    then have "trim (form_name f) \<noteq> []" "new_name d = formatName cm (form_name f)"
      using stored by simp_all
    then have "trim (new_name d) \<noteq> []"
      using assms by (simp add: trim_formatName formatName_not_Nil)
    with a shown [of "new_name d"]
    show "\<exists>m. cat_name (toCategory cm doc) = Some m \<and> m \<noteq> [] \<and> formatName cm m \<noteq> []"
      by blast
  qed
  from 0 1 2 3 4 show ?thesis by blast
qed

theorem category_name_not_empty_witness:
  "handleSubmit latin1_case example_form
     = AddDoc \<lparr>new_name = [0x48, 0x65, 0x6C, 0x20, 0x57, 0x6F], new_imageUrl = [0x64]\<rparr>
   \<and> data_name example_doc = Some [0x48, 0x65, 0x6C, 0x20, 0x57, 0x6F]
   \<and> cat_name (toCategory latin1_case example_doc) = Some [0x48, 0x65, 0x6C, 0x20, 0x57, 0x6F]
   \<and> formatName latin1_case [0x48, 0x65, 0x6C, 0x20, 0x57, 0x6F] \<noteq> []"
proof -
  have s: "handleSubmit latin1_case example_form
     = AddDoc \<lparr>new_name = [0x48, 0x65, 0x6C, 0x20, 0x57, 0x6F], new_imageUrl = [0x64]\<rparr>"
    by (simp add: handleSubmit_def example_form_def latin1_eval)
  have d: "data_name example_doc = Some [0x48, 0x65, 0x6C, 0x20, 0x57, 0x6F]"
    by (simp add: example_doc_def)
  have c: "cat_name (toCategory latin1_case example_doc) = Some [0x48, 0x65, 0x6C, 0x20, 0x57, 0x6F]"
    by (simp add: example_doc_def toCategory_def latin1_eval)
  show ?thesis
    using category_name_not_empty
      [OF keeps_words_latin1,
        of example_form "\<lparr>new_name = [0x48, 0x65, 0x6C, 0x20, 0x57, 0x6F], new_imageUrl = [0x64]\<rparr>"
          example_doc] s d c
    by simp
qed

section \<open>Properties of the listener\<close>

lemma compare_positive: "is_positive (compareCategories a b) \<longleftrightarrow> \<not> listed_before a b"
  by (auto simp: compareCategories_def listed_before_def orderOf_def strict_neq_def Let_def
      split: option.splits)

lemma listed_before_total: "listed_before a b \<or> listed_before b a"
  by (auto simp: listed_before_def split: option.splits)

lemma listed_before_trans: "listed_before a b \<Longrightarrow> listed_before b c \<Longrightarrow> listed_before a c"
  by (auto simp: listed_before_def split: option.splits)

lemma mset_sort_insert: "mset (sort_insert cmp x ys) = add_mset x (mset ys)"
  by (induction ys) auto

lemma mset_array_sort: "mset (array_sort cmp xs) = mset xs"
  by (induction xs) (auto simp: mset_sort_insert)

lemma set_sort_insert: "set (sort_insert cmp x ys) = insert x (set ys)"
  by (induction ys) auto

lemma sorted_sort_insert:
  "sorted_wrt listed_before ys \<Longrightarrow> sorted_wrt listed_before (sort_insert compareCategories x ys)"
proof (induction ys)
  case Nil
  then show ?case by simp
next
  case (Cons y ys)
  show ?case
  proof (cases "is_positive (compareCategories x y)")
    case True
    then have "listed_before y x"
      using listed_before_total [of x y] by (simp add: compare_positive)
    with Cons True show ?thesis
      by (auto simp: set_sort_insert)
  next
    case False
    then have "listed_before x y"
      by (simp add: compare_positive)
    with Cons False show ?thesis
      by (auto intro: listed_before_trans)
  qed
qed

lemma sorted_array_sort: "sorted_wrt listed_before (array_sort compareCategories xs)"
  by (induction xs) (auto simp: sorted_sort_insert)

lemma example_snapshot:
  "map (\<lambda>c. (cat_id c, cat_order c, cat_createdAt c)) (onSnapshot latin1_case example_docs) =
     [([0x63], Some 0, Some 7), ([0x65], Some 1, Some 20), ([0x61], Some 1, Some 10),
      ([0x64], None, Some 9), ([0x62], None, Some 5)]"
  by (simp add: onSnapshot_def example_docs_def toCategory_def compareCategories_def orderOf_def
      timeOf_def strict_neq_def)

section \<open>Claim about the listener\<close>

text \<open>
  C9. The list that the listener hands to \<open>setCategories\<close> holds the categories of the
  snapshot, and of any two positions the earlier one has the smaller order, or an
  order where the later one has none, or the same order (or none either) and a creation
  time that is not earlier; a missing creation time counts as time \<open>0\<close>.
\<close>

theorem onSnapshot_sorted:
  "mset (onSnapshot cm docs) = mset (map (toCategory cm) docs)
   \<and> (\<forall>i j. i < j \<and> j < length (onSnapshot cm docs) \<longrightarrow>
        (case (cat_order (onSnapshot cm docs ! i), cat_order (onSnapshot cm docs ! j)) of
           (Some m, Some n) \<Rightarrow>
              m < n \<or> (m = n \<and> timeOf (onSnapshot cm docs ! j) \<le> timeOf (onSnapshot cm docs ! i))
         | (Some m, None) \<Rightarrow> True
         | (None, Some n) \<Rightarrow> False
         | (None, None) \<Rightarrow> timeOf (onSnapshot cm docs ! j) \<le> timeOf (onSnapshot cm docs ! i)))"
proof -
  have "sorted_wrt listed_before (onSnapshot cm docs)"
    unfolding onSnapshot_def by (rule sorted_array_sort)
  then have "\<forall>i j. i < j \<and> j < length (onSnapshot cm docs) \<longrightarrow>
      listed_before (onSnapshot cm docs ! i) (onSnapshot cm docs ! j)"
    by (simp add: sorted_wrt_iff_nth_less)
  then show ?thesis
    unfolding listed_before_def by (simp add: onSnapshot_def mset_array_sort)
qed

theorem onSnapshot_sorted_witness:
  "(1::nat) < 2 \<and> 2 < length (onSnapshot latin1_case example_docs)
   \<and> cat_order (onSnapshot latin1_case example_docs ! 1) = Some 1
   \<and> cat_order (onSnapshot latin1_case example_docs ! 2) = Some 1
   \<and> timeOf (onSnapshot latin1_case example_docs ! 2) \<le> timeOf (onSnapshot latin1_case example_docs ! 1)
   \<and> map cat_id (onSnapshot latin1_case example_docs) = [[0x63], [0x65], [0x61], [0x64], [0x62]]"
proof -
  have l: "length (onSnapshot latin1_case example_docs) = 5"
    using example_snapshot [THEN arg_cong, of length] by simp
  have o: "cat_order (onSnapshot latin1_case example_docs ! 1) = Some 1"
    "cat_order (onSnapshot latin1_case example_docs ! 2) = Some 1"
    using example_snapshot [THEN arg_cong, of "\<lambda>xs. xs ! 1"]
      example_snapshot [THEN arg_cong, of "\<lambda>xs. xs ! 2"] l by simp_all
  have i: "map cat_id (onSnapshot latin1_case example_docs) = [[0x63], [0x65], [0x61], [0x64], [0x62]]"
    using example_snapshot [THEN arg_cong, of "map fst"] by (simp add: comp_def)
  from onSnapshot_sorted [of latin1_case example_docs]
  have "1 < (2::nat) \<and> 2 < length (onSnapshot latin1_case example_docs) \<longrightarrow>
        (case (cat_order (onSnapshot latin1_case example_docs ! 1), cat_order (onSnapshot latin1_case example_docs ! 2)) of
           (Some m, Some n) \<Rightarrow>
              m < n \<or> (m = n \<and> timeOf (onSnapshot latin1_case example_docs ! 2) \<le> timeOf (onSnapshot latin1_case example_docs ! 1))
         | (Some m, None) \<Rightarrow> True
         | (None, Some n) \<Rightarrow> False
         | (None, None) \<Rightarrow> timeOf (onSnapshot latin1_case example_docs ! 2) \<le> timeOf (onSnapshot latin1_case example_docs ! 1))"
    by blast
  then show ?thesis
    using l o i by simp
qed

section \<open>Properties of the rounding to binary64\<close>

lemma exponent_of_le:
  assumes "x \<noteq> 0"
  shows "2 powi (exponent_of x) \<le> \<bar>x\<bar>"
proof -
  obtain p q where pq: "quotient_of \<bar>x\<bar> = (p, q)"
    by (cases "quotient_of \<bar>x\<bar>") auto
  then have q: "0 < q" and x: "\<bar>x\<bar> = of_int p / of_int q"
    by (simp_all add: quotient_of_denom_pos quotient_of_div)
  have "0 < \<bar>x\<bar>" using assms by simp
  then have p: "0 < p"
    using q by (simp add: x zero_less_divide_iff)
  let ?k = "bitlen p - bitlen q"
  show ?thesis
  proof (cases "2 powi ?k \<le> \<bar>x\<bar>")
    case True
    then show ?thesis by (simp add: exponent_of_def pq)
  next
    case False
    have bp: "1 \<le> bitlen p"
      using p bitlen_eq_zero_iff [of p] bitlen_nonneg [of p] by linarith
    have "(2::int) ^ nat (bitlen p - 1) \<le> p"
      using bitlen_bounds [OF p] by simp
    then have "rat_of_int (2 ^ nat (bitlen p - 1)) \<le> of_int p"
      by (simp only: of_int_le_iff)
    then have 1: "(2::rat) ^ nat (bitlen p - 1) \<le> of_int p"
      by simp
    have "q < 2 ^ nat (bitlen q)"
      using bitlen_bounds [OF q] by simp
    then have "rat_of_int q \<le> of_int (2 ^ nat (bitlen q))"
      by (simp only: of_int_le_iff)
    then have 2: "of_int q \<le> (2::rat) ^ nat (bitlen q)"
      by simp
    have "(2::rat) powi (?k - 1) = 2 powi (bitlen p - 1) / 2 powi (bitlen q)"
      by (simp add: power_int_diff [symmetric] algebra_simps)
    also have "\<dots> = 2 ^ nat (bitlen p - 1) / 2 ^ nat (bitlen q)"
      using bp bitlen_nonneg [of q] by (simp add: power_int_nonneg_exp)
    also have "\<dots> \<le> of_int p / of_int q"
      using 1 2 p q by (intro frac_le) simp_all
    finally have "(2::rat) powi (?k - 1) \<le> \<bar>x\<bar>"
      by (simp only: x)
    moreover have "exponent_of x = ?k - 1"
      using False by (simp add: exponent_of_def pq)
    ultimately show ?thesis
      by simp
  qed
qed

lemma exponent_of_less:
  assumes "x \<noteq> 0" "\<bar>x\<bar> < 2 powi m"
  shows "exponent_of x < m"
proof (rule ccontr)
  assume "\<not> exponent_of x < m"
  then have "(2::rat) powi m \<le> 2 powi (exponent_of x)"
    by (intro power_int_increasing) simp_all
  also have "\<dots> \<le> \<bar>x\<bar>"
    using assms(1) by (rule exponent_of_le)
  finally show False
    using assms(2) by simp
qed

lemma round_half_even_error: "\<bar>of_int (round_half_even m) - m\<bar> \<le> 1 / 2"
proof -
  have "of_int \<lfloor>m\<rfloor> \<le> m" "m < of_int \<lfloor>m\<rfloor> + 1"
    by linarith+
  then show ?thesis
    unfolding round_half_even_def Let_def by (auto simp: abs_le_iff)
qed

lemma round_half_even_of_int: "round_half_even (of_int n) = n"
  by (simp add: round_half_even_def)

lemma quantum_pos: "0 < quantum x"
  by (simp add: quantum_def)

lemma double_of_error: "\<bar>double_of x - x\<bar> \<le> quantum x / 2"
proof (cases "x = 0")
  case True
  then show ?thesis
    using quantum_pos [of x] by (simp add: double_of_def)
next
  case False
  have "double_of x - x = (of_int (round_half_even (x / quantum x)) - x / quantum x) * quantum x"
    using quantum_pos [of x] False by (simp add: double_of_def left_diff_distrib)
  then have "\<bar>double_of x - x\<bar> = \<bar>of_int (round_half_even (x / quantum x)) - x / quantum x\<bar> * quantum x"
    using quantum_pos [of x] by (simp add: abs_mult)
  also have "\<dots> \<le> 1 / 2 * quantum x"
    using quantum_pos [of x] round_half_even_error [of "x / quantum x"]
    by (intro mult_right_mono) simp_all
  finally show ?thesis by simp
qed

lemma double_of_exact:
  assumes "x / quantum x = of_int n"
  shows "double_of x = x"
proof (cases "x = 0")
  case True
  then show ?thesis by (simp add: double_of_def)
next
  case False
  have "double_of x = of_int n * quantum x"
    using False by (simp add: double_of_def assms round_half_even_of_int)
  also have "\<dots> = x"
    using quantum_pos [of x] assms [symmetric] by simp
  finally show ?thesis .
qed

lemma quantum_le:
  assumes "x \<noteq> 0" "\<bar>x\<bar> < 2 powi m" "- 1021 \<le> m"
  shows "quantum x \<le> 2 powi (m - 53)"
proof -
  have "exponent_of x < m"
    using assms(1,2) by (rule exponent_of_less)
  then have "max (exponent_of x) (- 1022) - 52 \<le> m - 53"
    using assms(3) by simp
  then show ?thesis
    unfolding quantum_def by (intro power_int_increasing) simp_all
qed

lemma double_of_scaled_int:
  assumes "\<bar>x\<bar> < 2 powi m" "- 1021 \<le> m" "x * 2 powi (53 - m) = of_int n"
  shows "double_of x = x"
proof (cases "x = 0")
  case True
  then show ?thesis by (simp add: double_of_def)
next
  case False
  define E where "E = max (exponent_of x) (- 1022)"
  have "exponent_of x < m"
    using False assms(1) by (rule exponent_of_less)
  then have E: "0 \<le> m - 1 - E"
    using assms(2) by (simp add: E_def)
  have "x / quantum x = x * 2 powi (52 - E)"
    by (simp add: quantum_def E_def power_int_diff power_int_minus field_simps)
  also have "52 - E = (53 - m) + (m - 1 - E)"
    by simp
  also have "x * (2::rat) powi ((53 - m) + (m - 1 - E)) = (x * 2 powi (53 - m)) * 2 powi (m - 1 - E)"
  proof -
    have "(2::rat) powi ((53 - m) + (m - 1 - E)) = 2 powi (53 - m) * 2 powi (m - 1 - E)"
      by (rule power_int_add) simp
    then show ?thesis
      by (simp only: mult.assoc)
  qed
  also have "\<dots> = of_int n * 2 ^ nat (m - 1 - E)"
    using E by (simp add: assms(3) power_int_nonneg_exp)
  also have "\<dots> = of_int (n * 2 ^ nat (m - 1 - E))"
    by simp
  finally show ?thesis
    by (rule double_of_exact)
qed

lemma double_of_nat:
  assumes "n < 2 ^ 53"
  shows "double_of (of_nat n) = of_nat n"
proof (rule double_of_scaled_int [where m = 53 and n = "int n"])
  have "rat_of_nat n < of_nat (2 ^ 53)"
    using assms by (simp only: of_nat_less_iff)
  then show "\<bar>rat_of_nat n\<bar> < 2 powi 53"
    by simp
qed simp_all

lemma double_of_half_int:
  assumes "0 \<le> x" "x < 2048" "2 * x = of_int n"
  shows "double_of x = x"
proof (rule double_of_scaled_int [where m = 11 and n = "n * 2 ^ 41"])
  show "\<bar>x\<bar> < 2 powi 11"
    using assms(1,2) by simp
  have "x * 2 powi (53 - 11) = (2 * x) * 2 ^ 41"
    by simp
  then show "x * 2 powi (53 - 11) = of_int (n * 2 ^ 41)"
    by (simp add: assms(3))
qed simp

lemma scaled_side:
  fixes s l :: nat
  assumes sl: "s \<le> l" and l0: "0 < l" and l32: "l < 2 ^ 32"
  shows "math_round (double_of (double_of (of_nat s * 1200) / of_nat l))
           = int ((2 * (s * 1200) + l) div (2 * l))"
proof -
  define a where "a = s * 1200"
  define k where "k = (2 * a + l) div (2 * l)"
  define x :: rat where "x = of_nat a / of_nat l"
  define y where "y = double_of x"
  define eps :: rat where "eps = 1 / 2 ^ 43"
  define delta :: rat where "delta = 1 / (2 * of_nat l)"
  have L: "(0::rat) < of_nat l"
    using l0 by simp
  have "a < 2 ^ 53"
    using sl l32 by (simp add: a_def)
  then have "double_of (of_nat a) = of_nat a"
    by (rule double_of_nat)
  then have y: "double_of (double_of (of_nat s * 1200) / of_nat l) = y"
    by (simp add: y_def x_def a_def)
  have x0: "0 \<le> x"
    by (simp add: x_def)
  have "a \<le> 1200 * l"
    using sl by (simp add: a_def)
  then have "rat_of_nat a \<le> of_nat (1200 * l)"
    by (simp only: of_nat_le_iff)
  then have x1200: "x \<le> 1200"
    using L by (simp add: x_def divide_le_eq)
  have lo_nat: "2 * l * k \<le> 2 * a + l"
    unfolding k_def by simp
  have "2 * a + l < 2 * l * (k + 1)"
    unfolding k_def using l0 by (simp add: dividend_less_times_div)
  then have hi_nat: "2 * a + l + 1 \<le> 2 * l * (k + 1)"
    by simp
  from hi_nat have "rat_of_nat (2 * a + l + 1) \<le> of_nat (2 * l * (k + 1))"
    by (simp only: of_nat_le_iff)
  then have hi: "x + 1 / 2 + delta \<le> of_nat k + 1"
    using L by (simp add: x_def delta_def field_simps)
  have l33: "2 * rat_of_nat l < 2 ^ 33"
  proof -
    have "rat_of_nat l < of_nat (2 ^ 32)"
      using l32 by (simp only: of_nat_less_iff)
    then show ?thesis by simp
  qed
  have eps: "eps < delta"
  proof -
    have "2 * rat_of_nat l < 2 ^ 43"
      using l33 by simp
    then show ?thesis
      unfolding eps_def delta_def using L by (intro divide_strict_left_mono) simp_all
  qed
  have ky: "of_int (int k) \<le> y + 1 / 2 \<and> y + 1 / 2 < of_int (int k) + 1"
  proof (cases "x = 0")
    case True
    then have "a = 0"
      using l0 by (simp add: x_def)
    then have "k = 0"
      using l0 by (simp add: k_def)
    moreover have "y = 0"
      by (simp add: y_def True double_of_def)
    ultimately show ?thesis by simp
  next
    case False
    have "\<bar>x\<bar> < 2 powi 11"
      using x0 x1200 by simp
    with False have "quantum x \<le> 2 powi (11 - 53)"
      by (rule quantum_le) simp
    then have "quantum x / 2 \<le> 1 / 2 ^ 43"
      by simp
    with double_of_error [of x] have "\<bar>y - x\<bar> \<le> eps"
      by (simp add: y_def eps_def)
    then have err: "y - x \<le> eps" "x - y \<le> eps"
      by (simp_all add: abs_le_iff)
    have "y + 1 / 2 < of_nat k + 1"
      using err(1) eps hi by linarith
    then have upper: "y + 1 / 2 < of_int (int k) + 1"
      by simp
    have lower: "of_int (int k) \<le> y + 1 / 2"
    proof (cases "2 * l * k = 2 * a + l")
      case True
      then have "rat_of_nat (2 * l * k) = of_nat (2 * a + l)"
        by (simp only:)
      then have xk: "x = of_nat k - 1 / 2"
        using L by (simp add: x_def field_simps)
      have "double_of x = x"
      proof (rule double_of_half_int [where n = "2 * int k - 1"])
        show "0 \<le> x" by (rule x0)
        show "x < 2048" using x1200 by simp
        show "2 * x = of_int (2 * int k - 1)" by (simp add: xk)
      qed
      then show ?thesis
        by (simp add: y_def xk)
    next
      case False
      with lo_nat have "2 * l * k + 1 \<le> 2 * a + l"
        by simp
      then have "rat_of_nat (2 * l * k + 1) \<le> of_nat (2 * a + l)"
        by (simp only: of_nat_le_iff)
      then have "(2 * of_nat l * of_nat k + 1) / (2 * rat_of_nat l) \<le> (2 * of_nat a + of_nat l) / (2 * of_nat l)"
        using L by (intro divide_right_mono) simp_all
      moreover have "(2 * of_nat l * of_nat k + 1) / (2 * rat_of_nat l) = of_nat k + delta"
        using L by (simp add: delta_def add_divide_distrib)
      moreover have "(2 * of_nat a + of_nat l) / (2 * rat_of_nat l) = x + 1 / 2"
        using L by (simp add: x_def add_divide_distrib)
      ultimately have "of_nat k + delta \<le> x + 1 / 2"
        by simp
      then have "of_nat k \<le> y + 1 / 2"
        using err(2) eps by linarith
      then show ?thesis
        by simp
    qed
    from lower upper show ?thesis ..
  qed
  have "\<lfloor>y + 1 / 2\<rfloor> = int k"
    using ky by (intro floor_unique) simp_all
  then show ?thesis
    by (simp add: y math_round_def k_def a_def)
qed

section \<open>Properties of the compression\<close>

lemma double_of_nine_tenths: "double_of (9 / 10) = 8106479329266893 / 9007199254740992"
  by code_simp

lemma double_of_one_tenth: "double_of (1 / 10) = 3602879701896397 / 36028797018963968"
  by code_simp

lemma next_quality_1: "next_quality (8106479329266893 / 9007199254740992) = 3602879701896397 / 4503599627370496"
  by code_simp

lemma next_quality_2: "next_quality (3602879701896397 / 4503599627370496) = 6305039478318695 / 9007199254740992"
  by code_simp

lemma next_quality_3: "next_quality (6305039478318695 / 9007199254740992) = 1351079888211149 / 2251799813685248"
  by code_simp

lemma next_quality_4: "next_quality (1351079888211149 / 2251799813685248) = 4503599627370497 / 9007199254740992"
  by code_simp

lemma next_quality_5: "next_quality (4503599627370497 / 9007199254740992) = 1801439850948199 / 4503599627370496"
  by code_simp

lemma next_quality_6: "next_quality (1801439850948199 / 4503599627370496) = 2702159776422299 / 9007199254740992"
  by code_simp

lemma next_quality_7: "next_quality (2702159776422299 / 9007199254740992) = 7205759403792799 / 36028797018963968"
  by code_simp

lemma next_quality_8: "next_quality (7205759403792799 / 36028797018963968) = 1801439850948201 / 18014398509481984"
  by code_simp

lemma next_quality_9: "next_quality (1801439850948201 / 18014398509481984) = 3602879701896397 / 36028797018963968"
  by code_simp

lemma funpow_9: "(f ^^ 9) x = f (f (f (f (f (f (f (f (f x))))))))"
  by (simp add: eval_nat_numeral)

lemma floor_quality: "(next_quality ^^ 9) (double_of (9 / 10)) = double_of (1 / 10)"
  by (simp only: funpow_9 double_of_nine_tenths double_of_one_tenth next_quality_1 next_quality_2
      next_quality_3 next_quality_4 next_quality_5 next_quality_6 next_quality_7 next_quality_8
      next_quality_9)

lemma tryCompress_first:
  assumes "k < n" "resolves (enc ((next_quality ^^ k) q)) ((next_quality ^^ k) q)"
    and "\<forall>j<k. \<not> resolves (enc ((next_quality ^^ j) q)) ((next_quality ^^ j) q)"
  shows "tryCompress n enc q = Some (enc ((next_quality ^^ k) q), (next_quality ^^ k) q)"
  using assms
proof (induction k arbitrary: n q)
  case 0
  then obtain m where "n = Suc m" by (cases n) auto
  with 0 show ?case by simp
next
  case (Suc k)
  then obtain m where n: "n = Suc m" by (cases n) auto
  from Suc.prems(3) have "\<not> resolves (enc ((next_quality ^^ 0) q)) ((next_quality ^^ 0) q)"
    by blast
  then have q: "\<not> resolves (enc q) q" by simp
  have "tryCompress m enc (next_quality q) =
        Some (enc ((next_quality ^^ k) (next_quality q)), (next_quality ^^ k) (next_quality q))"
  proof (rule Suc.IH)
    show "k < m" using Suc.prems(1) n by simp
    show "resolves (enc ((next_quality ^^ k) (next_quality q))) ((next_quality ^^ k) (next_quality q))"
      using Suc.prems(2) by (simp add: funpow_swap1)
    show "\<forall>j<k. \<not> resolves (enc ((next_quality ^^ j) (next_quality q))) ((next_quality ^^ j) (next_quality q))"
    proof (intro allI impI)
      fix j assume "j < k"
      then have "Suc j < Suc k" by simp
      with Suc.prems(3) have "\<not> resolves (enc ((next_quality ^^ Suc j) q)) ((next_quality ^^ Suc j) q)"
        by blast
      then show "\<not> resolves (enc ((next_quality ^^ j) (next_quality q))) ((next_quality ^^ j) (next_quality q))"
        by (simp add: funpow_swap1)
    qed
  qed
  with q show ?case
    by (simp add: n funpow_swap1)
qed

lemma tryCompress_result:
  assumes "10 \<le> n"
  shows "\<exists>k<10. tryCompress n enc (double_of (9 / 10))
             = Some (enc ((next_quality ^^ k) (double_of (9 / 10))), (next_quality ^^ k) (double_of (9 / 10)))
         \<and> resolves (enc ((next_quality ^^ k) (double_of (9 / 10)))) ((next_quality ^^ k) (double_of (9 / 10)))
         \<and> (\<forall>j<k. \<not> resolves (enc ((next_quality ^^ j) (double_of (9 / 10)))) ((next_quality ^^ j) (double_of (9 / 10))))"
proof -
  let ?q = "\<lambda>k. (next_quality ^^ k) (double_of (9 / 10))"
  let ?P = "\<lambda>k. resolves (enc (?q k)) (?q k)"
  have 9: "?P 9"
    by (simp only: floor_quality resolves_def) simp
  define k where "k = (LEAST k. ?P k)"
  have P: "?P k"
    unfolding k_def using 9 by (rule LeastI)
  have k9: "k \<le> 9"
    unfolding k_def using 9 by (rule Least_le)
  have least: "\<forall>j<k. \<not> ?P j"
    unfolding k_def using not_less_Least by blast
  have "k < n" using k9 assms by simp
  then have "tryCompress n enc (double_of (9 / 10)) = Some (enc (?q k), ?q k)"
    using P least by (rule tryCompress_first)
  moreover have "k < 10" using k9 by simp
  ultimately show ?thesis
    using P least by blast
qed

lemma math_round_quotient:
  assumes "0 < l"
  shows "math_round (of_nat a / of_nat l) = int ((2 * a + l) div (2 * l))"
proof -
  have "rat_of_nat a / of_nat l + 1 / 2 = of_nat (2 * a + l) / of_nat (2 * l)"
    using assms by (simp add: add_divide_distrib)
  then show ?thesis
    unfolding math_round_def by (simp only: floor_divide_of_nat_eq)
qed

lemma math_round_error: "\<bar>of_int (math_round x) - x\<bar> \<le> 1 / 2"
proof -
  have "of_int \<lfloor>x + 1 / 2\<rfloor> \<le> x + 1 / 2" "x + 1 / 2 < of_int \<lfloor>x + 1 / 2\<rfloor> + 1"
    by linarith+
  then show ?thesis
    unfolding math_round_def by linarith
qed

lemma scaled_side_exact:
  fixes s l :: nat
  assumes "s \<le> l" "0 < l" "l < 2 ^ 32"
  shows "math_round (double_of (double_of (of_nat s * 1200) / of_nat l))
           = math_round (of_nat s * 1200 / of_nat l)"
proof -
  have "rat_of_nat s * 1200 = of_nat (s * 1200)"
    by simp
  then have "math_round (of_nat s * 1200 / of_nat l) = int ((2 * (s * 1200) + l) div (2 * l))"
    by (simp only: math_round_quotient [OF assms(2)])
  then show ?thesis
    using scaled_side [OF assms] by simp
qed

lemma scaled_side_le:
  fixes s l :: nat
  assumes "s \<le> l" "0 < l"
  shows "math_round (of_nat s * 1200 / of_nat l) \<le> 1200"
proof -
  have "rat_of_nat s * 1200 / of_nat l \<le> 1200"
    using assms by (simp add: divide_le_eq)
  then have "rat_of_nat s * 1200 / of_nat l + 1 / 2 < 1201"
    by linarith
  then have "\<lfloor>rat_of_nat s * 1200 / of_nat l + 1 / 2\<rfloor> < 1201"
    by (simp add: floor_less_iff)
  then show ?thesis
    by (simp add: math_round_def)
qed

lemma canvasSize_landscape:
  assumes "unat (img_height img) < unat (img_width img)" "1200 < unat (img_width img)"
  shows "canvasSize img =
           (1200, of_int (math_round (of_nat (unat (img_height img)) * 1200 / of_nat (unat (img_width img)))))"
proof -
  have "unat (img_width img) < 2 ^ 32"
    using unsigned_less [of "img_width img", where ?'a = nat] by simp
  then have "math_round (double_of (double_of (of_nat (unat (img_height img)) * 1200) / of_nat (unat (img_width img))))
     = math_round (of_nat (unat (img_height img)) * 1200 / of_nat (unat (img_width img)))"
    using assms by (intro scaled_side_exact) simp_all
  moreover have "rat_of_nat (unat (img_height img)) < of_nat (unat (img_width img))"
    using assms(1) by (simp only: of_nat_less_iff)
  moreover have "rat_of_nat 1200 < of_nat (unat (img_width img))"
    using assms(2) by (simp only: of_nat_less_iff)
  ultimately show ?thesis
    by (simp add: canvasSize_def MAX_DIM_def Let_def)
qed

lemma canvasSize_portrait:
  assumes "unat (img_width img) \<le> unat (img_height img)" "1200 < unat (img_height img)"
  shows "canvasSize img =
           (of_int (math_round (of_nat (unat (img_width img)) * 1200 / of_nat (unat (img_height img)))), 1200)"
proof -
  have "unat (img_height img) < 2 ^ 32"
    using unsigned_less [of "img_height img", where ?'a = nat] by simp
  then have "math_round (double_of (double_of (of_nat (unat (img_width img)) * 1200) / of_nat (unat (img_height img))))
     = math_round (of_nat (unat (img_width img)) * 1200 / of_nat (unat (img_height img)))"
    using assms by (intro scaled_side_exact) simp_all
  moreover have "\<not> rat_of_nat (unat (img_height img)) < of_nat (unat (img_width img))"
    using assms(1) by (simp only: of_nat_less_iff not_less)
  moreover have "rat_of_nat 1200 < of_nat (unat (img_height img))"
    using assms(2) by (simp only: of_nat_less_iff)
  ultimately show ?thesis
    by (simp add: canvasSize_def MAX_DIM_def Let_def)
qed

lemma canvasSize_small:
  assumes "unat (img_width img) \<le> 1200" "unat (img_height img) \<le> 1200"
  shows "canvasSize img = (of_nat (unat (img_width img)), of_nat (unat (img_height img)))"
proof -
  have "\<not> rat_of_nat 1200 < of_nat (unat (img_width img))"
    "\<not> rat_of_nat 1200 < of_nat (unat (img_height img))"
    using assms by (simp_all only: of_nat_less_iff not_less)
  then show ?thesis
    by (simp add: canvasSize_def MAX_DIM_def Let_def)
qed

lemma byteLength_exact:
  assumes "length dataUrl < 2 ^ 51"
  shows "byteLength dataUrl = of_nat ((3 * length dataUrl + 2) div 4)"
proof -
  define n where "n = length dataUrl"
  have n: "n < 2 ^ 51"
    using assms by (simp add: n_def)
  have "rat_of_nat n < of_nat (2 ^ 51)"
    using n by (simp only: of_nat_less_iff)
  then have nr: "rat_of_nat n < 2 ^ 51"
    by simp
  have "n * 3 < 2 ^ 53"
    using n by simp
  then have "double_of (of_nat (n * 3)) = of_nat (n * 3)"
    by (rule double_of_nat)
  then have 1: "double_of (of_nat n * 3) = of_nat n * 3"
    by simp
  have 2: "double_of (of_nat n * 3 / 4) = of_nat n * 3 / 4"
  proof (rule double_of_scaled_int [where m = 51 and n = "int n * 3"])
    show "\<bar>rat_of_nat n * 3 / 4\<bar> < 2 powi 51"
      using nr by simp
    show "rat_of_nat n * 3 / 4 * 2 powi (53 - 51) = of_int (int n * 3)"
      by simp
  qed simp
  have "rat_of_nat n * 3 / 4 + 1 / 2 = of_nat (3 * n + 2) / of_nat 4"
    by (simp add: add_divide_distrib)
  then have "math_round (rat_of_nat n * 3 / 4) = int ((3 * n + 2) div 4)"
    unfolding math_round_def by (simp only: floor_divide_of_nat_eq)
  then show ?thesis
    by (simp add: byteLength_def 1 2 n_def [symmetric])
qed

lemma compressImage_Some:
  "compressImage fuel toDataURL (Some img)
     = map_option Inr (tryCompress fuel (toDataURL (canvasSize img)) (double_of (9 / 10)))"
  by (simp add: compressImage_def)

lemma byteLength_large_url: "byteLength large_url = 525000"
proof -
  have "length large_url = 700000"
    unfolding large_url_def by (rule length_replicate)
  then show ?thesis
    by (simp add: byteLength_exact)
qed

lemma byteLength_medium_url: "byteLength medium_url = 450000"
proof -
  have "length medium_url = 600000"
    unfolding medium_url_def by (rule length_replicate)
  then show ?thesis
    by (simp add: byteLength_exact)
qed

lemmas quality_schedule =
  double_of_nine_tenths double_of_one_tenth next_quality_1 next_quality_2 next_quality_3
  next_quality_4 next_quality_5 next_quality_6 next_quality_7 next_quality_8 next_quality_9

lemma example_compression:
  "compressImage 10 example_encoder (Some example_image)
     = Some (Inr (medium_url, 1801439850948199 / 4503599627370496))"
  by (simp add: compressImage_Some example_encoder_def resolves_def TARGET_KB_def
      quality_schedule eval_nat_numeral byteLength_large_url byteLength_medium_url)

lemma stubborn_compression:
  "tryCompress 9 (stubborn_encoder canvas) (double_of (9 / 10)) = None
   \<and> tryCompress 10 (stubborn_encoder canvas) (double_of (9 / 10))
       = Some (large_url, double_of (1 / 10))"
  by (simp add: stubborn_encoder_def resolves_def TARGET_KB_def
      quality_schedule eval_nat_numeral byteLength_large_url)

lemma quantum_le_scaled:
  assumes "1 \<le> x"
  shows "quantum x \<le> x / 2 ^ 52"
proof -
  have x0: "x \<noteq> 0" using assms by simp
  have e: "2 powi (exponent_of x) \<le> x"
    using exponent_of_le [OF x0] assms by simp
  show ?thesis
  proof (cases "- 1022 \<le> exponent_of x")
    case True
    then have "quantum x = 2 powi (exponent_of x - 52)"
      by (simp add: quantum_def max_def)
    also have "\<dots> = 2 powi (exponent_of x) / 2 ^ 52"
      by (simp add: power_int_diff)
    also have "\<dots> \<le> x / 2 ^ 52"
      using e by (intro divide_right_mono) simp_all
    finally show ?thesis .
  next
    case False
    then have "quantum x = 2 powi (- 1022 - 52)"
      by (simp add: quantum_def max_def)
    also have "\<dots> \<le> 2 powi (- 52)"
      by (intro power_int_increasing) simp_all
    also have "\<dots> = 1 / 2 ^ 52"
      by (simp add: power_int_minus field_simps)
    also have "\<dots> \<le> x / 2 ^ 52"
      using assms by (intro divide_right_mono) simp_all
    finally show ?thesis .
  qed
qed

lemma double_of_ge_half:
  assumes "1 \<le> x"
  shows "x / 2 \<le> double_of x"
proof -
  have "\<bar>double_of x - x\<bar> \<le> quantum x / 2"
    by (rule double_of_error)
  moreover have "quantum x / 2 \<le> x / 2 ^ 52 / 2"
    using quantum_le_scaled [OF assms] by (intro divide_right_mono) simp_all
  moreover have "x / 2 ^ 52 / 2 \<le> x / 2"
    using assms by simp
  ultimately show ?thesis
    by linarith
qed

lemma byteLength_huge:
  assumes "2 ^ 51 \<le> length dataUrl"
  shows "TARGET_KB \<le> byteLength dataUrl"
proof -
  define n :: rat where "n = of_nat (length dataUrl)"
  have "rat_of_nat (2 ^ 51) \<le> of_nat (length dataUrl)"
    using assms by (simp only: of_nat_le_iff)
  then have n: "2 ^ 51 \<le> n"
    by (simp add: n_def)
  have "n * 3 / 2 \<le> double_of (n * 3)"
    using n by (intro double_of_ge_half) simp
  then have 1: "2 ^ 49 \<le> double_of (n * 3) / 4"
    using n by simp
  then have "double_of (n * 3) / 4 / 2 \<le> double_of (double_of (n * 3) / 4)"
    by (intro double_of_ge_half) simp
  with 1 have "2 ^ 48 \<le> double_of (double_of (n * 3) / 4)"
    by simp
  then have "(512000::rat) \<le> double_of (double_of (n * 3) / 4) + 1 / 2"
    by simp
  then have "of_int 512000 \<le> double_of (double_of (n * 3) / 4) + 1 / 2"
    by simp
  then have "512000 \<le> \<lfloor>double_of (double_of (n * 3) / 4) + 1 / 2\<rfloor>"
    by (simp only: le_floor_iff)
  then have "512000 \<le> math_round (double_of (double_of (n * 3) / 4))"
    by (simp add: math_round_def)
  then have "rat_of_int 512000 \<le> of_int (math_round (double_of (double_of (n * 3) / 4)))"
    by (simp only: of_int_le_iff)
  then show ?thesis
    by (simp add: byteLength_def TARGET_KB_def n_def)
qed

lemma byteLength_below_target:
  "byteLength dataUrl < TARGET_KB \<longleftrightarrow> (3 * length dataUrl + 2) div 4 < 512000"
proof (cases "length dataUrl < 2 ^ 51")
  case True
  have "rat_of_nat ((3 * length dataUrl + 2) div 4) < of_nat 512000
        \<longleftrightarrow> (3 * length dataUrl + 2) div 4 < 512000"
    by (simp only: of_nat_less_iff)
  then show ?thesis
    by (simp add: byteLength_exact [OF True] TARGET_KB_def)
next
  case False
  then have "2 ^ 51 \<le> length dataUrl"
    by simp
  then have "TARGET_KB \<le> byteLength dataUrl"
    by (rule byteLength_huge)
  moreover have "\<not> (3 * length dataUrl + 2) div 4 < 512000"
    using False by simp
  ultimately show ?thesis
    by simp
qed

lemma less_ten_cases:
  assumes "k < (10::nat)"
  obtains "k = 0" | "k = 1" | "k = 2" | "k = 3" | "k = 4" | "k = 5" | "k = 6" | "k = 7" | "k = 8"
    | "k = 9"
  using assms by atomize_elim arith

lemma quality_values:
  assumes "k < 10"
  shows "(next_quality ^^ k) (double_of (9 / 10)) =
       [8106479329266893 / 9007199254740992,
        3602879701896397 / 4503599627370496,
        6305039478318695 / 9007199254740992,
        1351079888211149 / 2251799813685248,
        4503599627370497 / 9007199254740992,
        1801439850948199 / 4503599627370496,
        2702159776422299 / 9007199254740992,
        7205759403792799 / 36028797018963968,
        1801439850948201 / 18014398509481984,
        3602879701896397 / 36028797018963968] ! k"
  using assms
  by (elim less_ten_cases) (simp_all add: eval_nat_numeral quality_schedule)

lemma length_boundary_url: "length boundary_url = 682666"
  unfolding boundary_url_def by (rule length_replicate)

lemma byteLength_boundary_url: "byteLength boundary_url = 512000"
  by (simp add: byteLength_exact length_boundary_url)

lemma length_large_url: "length large_url = 700000"
  unfolding large_url_def by (rule length_replicate)

lemma length_medium_url: "length medium_url = 600000"
  unfolding medium_url_def by (rule length_replicate)

lemma boundary_compression:
  "tryCompress 9 (boundary_encoder canvas) (double_of (9 / 10)) = None
   \<and> tryCompress 10 (boundary_encoder canvas) (double_of (9 / 10))
       = Some (boundary_url, double_of (1 / 10))"
  by (simp add: boundary_encoder_def resolves_def TARGET_KB_def
      quality_schedule eval_nat_numeral byteLength_boundary_url)

section \<open>Claims about the compression\<close>

text \<open>
  C1, as amended. For every decoded image and every encoder, \<open>compressImage\<close> is
  resolved within ten calls of \<open>tryCompress\<close>. The qualities of the ten calls are the
  binary64 values \<open>0.9\<close>, \<open>0.8\<close>, \<open>0.7000000000000001\<close>, \<open>0.6000000000000001\<close>,
  \<open>0.5000000000000001\<close>, \<open>0.40000000000000013\<close>, \<open>0.30000000000000016\<close>,
  \<open>0.20000000000000015\<close>, \<open>0.10000000000000014\<close> and \<open>0.1\<close>. The promise is resolved
  with the data URL and at the quality of the first call at which the estimated byte
  size, three quarters of the length rounded to the nearest integer (a half upwards), is
  below 512000 or the quality is at most \<open>0.1\<close>; at no earlier call did either hold. An
  estimate equal to the target does not end the search.
\<close>

theorem compressImage_below_target_or_floor:
  fixes Q :: "rat list"
  defines "Q \<equiv>
       [8106479329266893 / 9007199254740992,
        3602879701896397 / 4503599627370496,
        6305039478318695 / 9007199254740992,
        1351079888211149 / 2251799813685248,
        4503599627370497 / 9007199254740992,
        1801439850948199 / 4503599627370496,
        2702159776422299 / 9007199254740992,
        7205759403792799 / 36028797018963968,
        1801439850948201 / 18014398509481984,
        3602879701896397 / 36028797018963968]"
  assumes "10 \<le> fuel"
  shows "\<exists>k<10.
           compressImage fuel toDataURL (Some img)
             = Some (Inr (toDataURL (canvasSize img) (Q ! k), Q ! k))
         \<and> ((3 * length (toDataURL (canvasSize img) (Q ! k)) + 2) div 4 < 512000
              \<or> Q ! k \<le> 3602879701896397 / 36028797018963968)
         \<and> (\<forall>j<k. \<not> ((3 * length (toDataURL (canvasSize img) (Q ! j)) + 2) div 4 < 512000
                          \<or> Q ! j \<le> 3602879701896397 / 36028797018963968))"
proof -
  let ?enc = "toDataURL (canvasSize img)"
  let ?q = "\<lambda>k. (next_quality ^^ k) (double_of (9 / 10))"
  have Q: "?q k = Q ! k" if "k < 10" for k
    unfolding Q_def using that by (rule quality_values)
  have R: "resolves (?enc (Q ! k)) (Q ! k) \<longleftrightarrow>
        (3 * length (?enc (Q ! k)) + 2) div 4 < 512000 \<or> Q ! k \<le> 3602879701896397 / 36028797018963968" for k
    by (simp add: resolves_def byteLength_below_target double_of_one_tenth)
  from tryCompress_result [OF assms(2), of ?enc]
  obtain k where k: "k < 10"
    "tryCompress fuel ?enc (double_of (9 / 10)) = Some (?enc (?q k), ?q k)"
    "resolves (?enc (?q k)) (?q k)"
    "\<forall>j<k. \<not> resolves (?enc (?q j)) (?q j)"
    by blast
  have 1: "compressImage fuel toDataURL (Some img) = Some (Inr (?enc (Q ! k), Q ! k))"
    using k(1,2) by (simp add: compressImage_Some Q)
  have "resolves (?enc (Q ! k)) (Q ! k)"
    using k(1,3) by (simp add: Q)
  then have 2: "(3 * length (?enc (Q ! k)) + 2) div 4 < 512000 \<or> Q ! k \<le> 3602879701896397 / 36028797018963968"
    using R [of k] by blast
  have 3: "\<forall>j<k. \<not> ((3 * length (?enc (Q ! j)) + 2) div 4 < 512000 \<or> Q ! j \<le> 3602879701896397 / 36028797018963968)"
  proof (intro allI impI)
    fix j assume j: "j < k"
    then have "j < 10" using k(1) by simp
    then have "?q j = Q ! j" by (rule Q)
    moreover have "\<not> resolves (?enc (?q j)) (?q j)"
      using k(4) j by blast
    ultimately have "\<not> resolves (?enc (Q ! j)) (Q ! j)"
      by simp
    then show "\<not> ((3 * length (?enc (Q ! j)) + 2) div 4 < 512000 \<or> Q ! j \<le> 3602879701896397 / 36028797018963968)"
      using R [of j] by blast
  qed
  from k(1) 1 2 3 show ?thesis
    by blast
qed

theorem compressImage_below_target_or_floor_witness:
  "(10::nat) \<le> 10
   \<and> compressImage 10 example_encoder (Some example_image)
       = Some (Inr (medium_url, 1801439850948199 / 4503599627370496))
   \<and> (3 * length medium_url + 2) div 4 = 450000
   \<and> (3 * length large_url + 2) div 4 = 525000"
proof -
  have h: "(10::nat) \<le> 10"
    by simp
  have "(3 * length medium_url + 2) div 4 = 450000" "(3 * length large_url + 2) div 4 = 525000"
    by (simp_all add: length_medium_url length_large_url)
  then show ?thesis
    using h compressImage_below_target_or_floor [OF h, of example_encoder example_image]
      example_compression
    by blast
qed

text \<open>
  The input on which the claim C1 fails: an encoder whose data URL has 682666
  characters at every quality. Its estimated size is exactly 512000, at most the
  target, from the first call on, but the promise is not resolved by the first nine
  calls: it is resolved by the tenth, at the floor of the quality.
\<close>

theorem compressImage_at_target_goes_on:
  "(3 * length boundary_url + 2) div 4 = 512000
   \<and> byteLength boundary_url = TARGET_KB
   \<and> boundary_encoder (canvasSize example_image) (double_of (9 / 10)) = boundary_url
   \<and> compressImage 9 boundary_encoder (Some example_image) = None
   \<and> compressImage 10 boundary_encoder (Some example_image)
       = Some (Inr (boundary_url, double_of (1 / 10)))"
  by (simp add: length_boundary_url byteLength_boundary_url TARGET_KB_def compressImage_Some
      boundary_compression) (simp add: boundary_encoder_def)

text \<open>
  C2. When the longer side of the image exceeds 1200, the longer side of the canvas is
  1200 and the shorter one is \<open>Math.round\<close> of the exact quotient
  \<open>shorter * 1200 / longer\<close>: the rounding of the product and of the quotient to binary64
  does not change the result. So neither side exceeds 1200, and the shorter side differs
  from the exact quotient by at most one half.
\<close>

theorem canvasSize_capped:
  assumes "1200 < max (unat (img_width img)) (unat (img_height img))"
  shows "max (fst (canvasSize img)) (snd (canvasSize img)) \<le> 1200
       \<and> (unat (img_height img) < unat (img_width img) \<longrightarrow>
            canvasSize img =
              (1200, of_int (math_round (of_nat (unat (img_height img)) * 1200
                                          / of_nat (unat (img_width img)))))
            \<and> \<bar>snd (canvasSize img)
                 - of_nat (unat (img_height img)) * 1200 / of_nat (unat (img_width img))\<bar> \<le> 1 / 2)
       \<and> (unat (img_width img) \<le> unat (img_height img) \<longrightarrow>
            canvasSize img =
              (of_int (math_round (of_nat (unat (img_width img)) * 1200
                                    / of_nat (unat (img_height img)))), 1200)
            \<and> \<bar>fst (canvasSize img)
                 - of_nat (unat (img_width img)) * 1200 / of_nat (unat (img_height img))\<bar> \<le> 1 / 2)"
proof (cases "unat (img_height img) < unat (img_width img)")
  case True
  with assms have w: "1200 < unat (img_width img)"
    by simp
  have c: "canvasSize img =
      (1200, of_int (math_round (of_nat (unat (img_height img)) * 1200 / of_nat (unat (img_width img)))))"
    using True w by (rule canvasSize_landscape)
  have "math_round (of_nat (unat (img_height img)) * 1200 / of_nat (unat (img_width img))) \<le> 1200"
    using True w by (intro scaled_side_le) simp_all
  then have "rat_of_int (math_round (of_nat (unat (img_height img)) * 1200 / of_nat (unat (img_width img)))) \<le> of_int 1200"
    by (simp only: of_int_le_iff)
  then have "max (fst (canvasSize img)) (snd (canvasSize img)) \<le> 1200"
    by (simp add: c)
  then show ?thesis
    using True c math_round_error by simp
next
  case False
  with assms have h: "1200 < unat (img_height img)"
    by simp
  from False have le: "unat (img_width img) \<le> unat (img_height img)"
    by simp
  have c: "canvasSize img =
      (of_int (math_round (of_nat (unat (img_width img)) * 1200 / of_nat (unat (img_height img)))), 1200)"
    using le h by (rule canvasSize_portrait)
  have "math_round (of_nat (unat (img_width img)) * 1200 / of_nat (unat (img_height img))) \<le> 1200"
    using le h by (intro scaled_side_le) simp_all
  then have "rat_of_int (math_round (of_nat (unat (img_width img)) * 1200 / of_nat (unat (img_height img)))) \<le> of_int 1200"
    by (simp only: of_int_le_iff)
  then have "max (fst (canvasSize img)) (snd (canvasSize img)) \<le> 1200"
    by (simp add: c)
  then show ?thesis
    using False c math_round_error by simp
qed

theorem canvasSize_capped_witness:
  "1200 < max (unat (img_width \<lparr>img_width = 4000, img_height = 3000\<rparr>))
              (unat (img_height \<lparr>img_width = 4000, img_height = 3000\<rparr>))
   \<and> canvasSize \<lparr>img_width = 4000, img_height = 3000\<rparr> = (1200, 900)"
proof -
  have "\<lfloor>1801 / 2 :: rat\<rfloor> = 900"
    by (simp add: floor_eq_iff)
  then show ?thesis
    using canvasSize_capped [of "\<lparr>img_width = 4000, img_height = 3000\<rparr>"]
    by (simp add: math_round_def)
qed

text \<open>
  C7. The search ends: whatever the encoder returns and whether or not the image loads,
  the promise is settled within ten calls of \<open>tryCompress\<close>, and a larger bound on the
  calls gives the same result.
\<close>

theorem compressImage_terminates:
  "\<exists>r. compressImage 10 toDataURL file = Some r
      \<and> (\<forall>fuel\<ge>10. compressImage fuel toDataURL file = Some r)"
proof (cases "file")
  case None
  then show ?thesis by (simp add: compressImage_def)
next
  case (Some img)
  let ?enc = "toDataURL (canvasSize img)"
  let ?q = "\<lambda>k. (next_quality ^^ k) (double_of (9 / 10))"
  have *: "\<exists>k<10. tryCompress n ?enc (double_of (9 / 10)) = Some (?enc (?q k), ?q k)
              \<and> resolves (?enc (?q k)) (?q k) \<and> (\<forall>j<k. \<not> resolves (?enc (?q j)) (?q j))"
    if "10 \<le> n" for n
    using that by (rule tryCompress_result)
  from * [of 10] obtain k where k: "k < 10"
    "tryCompress 10 ?enc (double_of (9 / 10)) = Some (?enc (?q k), ?q k)"
    "resolves (?enc (?q k)) (?q k)" "\<forall>j<k. \<not> resolves (?enc (?q j)) (?q j)"
    by auto
  have "tryCompress n ?enc (double_of (9 / 10)) = Some (?enc (?q k), ?q k)" if "10 \<le> n" for n
  proof -
    have "k < n" using k(1) that by simp
    then show ?thesis
      using k(3,4) by (rule tryCompress_first)
  qed
  then show ?thesis
    by (simp add: Some compressImage_Some)
qed

theorem compressImage_terminates_witness:
  "compressImage 10 stubborn_encoder (Some example_image)
     = Some (Inr (large_url, double_of (1 / 10)))
   \<and> (10::nat) \<le> 12
   \<and> compressImage 12 stubborn_encoder (Some example_image)
     = Some (Inr (large_url, double_of (1 / 10)))"
proof -
  have "compressImage 10 stubborn_encoder (Some example_image)
     = Some (Inr (large_url, double_of (1 / 10)))"
    by (simp add: compressImage_Some stubborn_compression)
  then show ?thesis
    using compressImage_terminates [of stubborn_encoder "Some example_image"] by auto
qed

end
